theory Spec2Isabelle
  imports Complex_Main
begin

section \<open>Data model\<close>

text \<open>
  The records of the Google Drive API (\<^verbatim>\<open>drive_v3.Schema$File\<close> and
  \<^verbatim>\<open>Schema$Permission\<close>): every field but the id may be missing. The API's
  \<^verbatim>\<open>size\<close>, \<^verbatim>\<open>createdTime\<close> and \<^verbatim>\<open>modifiedTime\<close> are carried already
  parsed (\<^verbatim>\<open>parseInt\<close>, \<^verbatim>\<open>new Date\<close>): a size is an integer, a date is its
  epoch value in milliseconds.
\<close>

record schema_file =
  sf_id :: string
  sf_name :: "string option"
  sf_mimeType :: "string option"
  sf_parents :: "string list option"
  sf_size :: "int option"
  sf_createdTime :: "int option"
  sf_modifiedTime :: "int option"
  sf_trashed :: "bool option"

record schema_permission =
  sp_id :: string
  sp_type :: "string option"
  sp_role :: "string option"
  sp_emailAddress :: "string option"
  sp_domain :: "string option"
  sp_allowFileDiscovery :: "bool option"

text \<open>\<^verbatim>\<open>DriveFileData\<close> and \<^verbatim>\<open>DrivePermissionData\<close>, the two interfaces of the services.\<close>

record drive_file_data =
  fd_id :: string
  fd_name :: string
  fd_mimeType :: "string option"
  fd_parents :: "string list option"
  fd_size :: "int option"
  fd_createdTime :: "int option"
  fd_modifiedTime :: "int option"
  fd_trashed :: bool
  fd_isFolder :: bool

record drive_permission_data =
  pd_id :: string
  pd_fileId :: string
  pd_type :: string
  pd_role :: string
  pd_emailAddress :: "string option"
  pd_domain :: "string option"
  pd_allowFileDiscovery :: bool

text \<open>
  The rows of the two tables of the migration (\<^verbatim>\<open>DriveFile\<close>, \<^verbatim>\<open>DrivePermission\<close>),
  columns in the order of the \<^verbatim>\<open>CREATE TABLE\<close> statements; \<^verbatim>\<open>parents\<close> is one text
  column.
\<close>

record file_row =
  fr_id :: string
  fr_name :: string
  fr_mimeType :: "string option"
  fr_parents :: "string option"
  fr_size :: "int option"
  fr_modifiedTime :: "int option"
  fr_createdTime :: "int option"
  fr_isFolder :: bool
  fr_trashed :: bool

record perm_row =
  pr_id :: string
  pr_fileId :: string
  pr_type :: string
  pr_role :: string
  pr_emailAddress :: "string option"
  pr_domain :: "string option"
  pr_allowFileDiscovery :: bool

section \<open>JavaScript values, object spread and \<^verbatim>\<open>JSON.stringify\<close>\<close>

text \<open>
  \<^verbatim>\<open>s || d\<close> on a possibly missing string: the default replaces a missing and an empty
  string alike, both being falsy.
\<close>

definition str_or :: "string option \<Rightarrow> string \<Rightarrow> string" where
  "str_or v d = (case v of None \<Rightarrow> d | Some s \<Rightarrow> if s = [] then d else s)"

definition str_or_null :: "string option \<Rightarrow> string option" where
  "str_or_null v = (case v of None \<Rightarrow> None | Some s \<Rightarrow> if s = [] then None else Some s)"

definition bool_or_false :: "bool option \<Rightarrow> bool" where
  "bool_or_false v = (case v of None \<Rightarrow> False | Some b \<Rightarrow> b)"

definition int_or_null :: "int option \<Rightarrow> int option" where
  "int_or_null v = (case v of None \<Rightarrow> None | Some n \<Rightarrow> if n = 0 then None else Some n)"

text \<open>\<^verbatim>\<open>parents.join(',')\<close>.\<close>

fun join_comma :: "string list \<Rightarrow> string" where
  "join_comma [] = []"
| "join_comma [x] = x"
| "join_comma (x # y # ys) = x @ '','' @ join_comma (y # ys)"

text \<open>
  The values a row's property holds, and an object as its own properties in
  enumeration order.
\<close>

datatype jsval = JNull | JBool bool | JNum int | JStr string | JDate int

type_synonym jsobj = "(string \<times> jsval) list"

text \<open>
  Assigning a property keeps the place of a key the object already has and appends a new
  key; \<^verbatim>\<open>{...a, ...b}\<close> assigns the properties of \<^verbatim>\<open>a\<close>, then those of \<^verbatim>\<open>b\<close>, to
  an empty object.
\<close>

fun assign :: "jsobj \<Rightarrow> string \<Rightarrow> jsval \<Rightarrow> jsobj" where
  "assign [] k v = [(k, v)]"
| "assign ((k', v') # ob) k v = (if k' = k then (k, v) # ob else (k', v') # assign ob k v)"

definition assign_all :: "jsobj \<Rightarrow> jsobj \<Rightarrow> jsobj" where
  "assign_all ob src = foldl (\<lambda>acc kv. assign acc (fst kv) (snd kv)) ob src"

definition spread :: "jsobj \<Rightarrow> jsobj \<Rightarrow> jsobj" where
  "spread a b = assign_all (assign_all [] a) b"

text \<open>
  \<^verbatim>\<open>JSON.stringify\<close> of such an object, as the sequence of tokens of the text it
  produces: the members in enumeration order, separated by commas, between braces. A
  date is written through \<^verbatim>\<open>toJSON\<close>, one text per instant.
\<close>

datatype json_token = LBrace | RBrace | Comma | Colon | Key string | Val jsval

fun members :: "jsobj \<Rightarrow> json_token list" where
  "members [] = []"
| "members [(k, v)] = [Key k, Colon, Val v]"
| "members ((k, v) # m # ms) = [Key k, Colon, Val v, Comma] @ members (m # ms)"

definition JSON_stringify :: "jsobj \<Rightarrow> json_token list" where
  "JSON_stringify ob = LBrace # members ob @ [RBrace]"

definition opt_js :: "('a \<Rightarrow> jsval) \<Rightarrow> 'a option \<Rightarrow> jsval" where
  "opt_js f v = (case v of None \<Rightarrow> JNull | Some x \<Rightarrow> f x)"

text \<open>A row as the object Prisma returns, and as the literal the code builds.\<close>

definition file_object :: "file_row \<Rightarrow> jsobj" where
  "file_object r =
     [(''id'', JStr (fr_id r)),
      (''name'', JStr (fr_name r)),
      (''mimeType'', opt_js JStr (fr_mimeType r)),
      (''parents'', opt_js JStr (fr_parents r)),
      (''size'', opt_js JNum (fr_size r)),
      (''modifiedTime'', opt_js JDate (fr_modifiedTime r)),
      (''createdTime'', opt_js JDate (fr_createdTime r)),
      (''isFolder'', JBool (fr_isFolder r)),
      (''trashed'', JBool (fr_trashed r))]"

definition perm_object :: "perm_row \<Rightarrow> jsobj" where
  "perm_object r =
     [(''id'', JStr (pr_id r)),
      (''fileId'', JStr (pr_fileId r)),
      (''type'', JStr (pr_type r)),
      (''role'', JStr (pr_role r)),
      (''emailAddress'', opt_js JStr (pr_emailAddress r)),
      (''domain'', opt_js JStr (pr_domain r)),
      (''allowFileDiscovery'', JBool (pr_allowFileDiscovery r))]"

text \<open>
  \<^verbatim>\<open>JSON.stringify(existing) !== JSON.stringify({...existing, ...data})\<close>, on the
  objects and on the rows.
\<close>

definition has_changes :: "jsobj \<Rightarrow> jsobj \<Rightarrow> bool" where
  "has_changes existing data \<longleftrightarrow>
     JSON_stringify existing \<noteq> JSON_stringify (spread existing data)"

definition file_has_changes :: "file_row \<Rightarrow> file_row \<Rightarrow> bool" where
  "file_has_changes existing data = has_changes (file_object existing) (file_object data)"

definition perm_has_changes :: "perm_row \<Rightarrow> perm_row \<Rightarrow> bool" where
  "perm_has_changes existing data = has_changes (perm_object existing) (perm_object data)"

section \<open>The persistence layer\<close>

text \<open>
  The PostgreSQL database behind Prisma: the two tables as lists of rows, and a journal of
  the statements carried out, in order. Whether the database refuses a row it is asked to
  write (a size beyond the \<^verbatim>\<open>INTEGER\<close> column, say) is not decided by the repository;
  \<open>rejectsFile\<close> and \<open>rejectsPerm\<close> say which rows it refuses. The primary keys, the
  foreign key of \<^verbatim>\<open>DrivePermission.fileId\<close> and its \<^verbatim>\<open>ON DELETE CASCADE\<close> are those of
  the migration.

  While a transaction is open, \<open>tx_snapshot\<close> holds the tables as they were when it
  began. A statement the database refuses puts the open transaction in the failed state
  (\<open>tx_failed\<close>): every later statement of that transaction is refused as well, and its
  commit is carried out as a rollback, without an error.
\<close>

datatype journal_entry =
    TxBegin | TxCommit
  | FileCreated string | FileUpdated string
  | PermCreated string | PermUpdated string
  | FilesDeleted "string list" | PermsDeleted "string list"

datatype db_error = Rejected | UniqueViolation | ForeignKeyViolation | RecordNotFound

record database =
  driveFile :: "file_row list"
  drivePermission :: "perm_row list"
  journal :: "journal_entry list"
  rejectsFile :: "file_row \<Rightarrow> bool"
  rejectsPerm :: "perm_row \<Rightarrow> bool"
  tx_snapshot :: "(file_row list \<times> perm_row list) option"
  tx_failed :: bool

definition record_entry :: "journal_entry \<Rightarrow> database \<Rightarrow> database" where
  "record_entry e db = db\<lparr>journal := journal db @ [e]\<rparr>"

text \<open>\<^verbatim>\<open>driveFile.findMany({ select: { id: true } })\<close>, in table order.\<close>

definition file_ids :: "database \<Rightarrow> string list" where
  "file_ids db = map fr_id (driveFile db)"

definition findUnique_file :: "database \<Rightarrow> string \<Rightarrow> file_row option" where
  "findUnique_file db i = find (\<lambda>r. fr_id r = i) (driveFile db)"

definition findUnique_perm :: "database \<Rightarrow> string \<Rightarrow> perm_row option" where
  "findUnique_perm db i = find (\<lambda>r. pr_id r = i) (drivePermission db)"

definition create_file :: "database \<Rightarrow> file_row \<Rightarrow> db_error + database" where
  "create_file db r =
     (if rejectsFile db r then Inl Rejected
      else if fr_id r \<in> set (file_ids db) then Inl UniqueViolation
      else Inr (record_entry (FileCreated (fr_id r)) (db\<lparr>driveFile := driveFile db @ [r]\<rparr>)))"

text \<open>
  \<^verbatim>\<open>update({ where: { id }, data })\<close>; the data carries the same id. PostgreSQL writes
  the new version of the row behind the others, so a \<^verbatim>\<open>findMany\<close> without an order
  answers the updated row last.
\<close>

definition update_file :: "database \<Rightarrow> file_row \<Rightarrow> db_error + database" where
  "update_file db r =
     (if rejectsFile db r then Inl Rejected
      else if fr_id r \<notin> set (file_ids db) then Inl RecordNotFound
      else Inr (record_entry (FileUpdated (fr_id r))
             (db\<lparr>driveFile := filter (\<lambda>x. fr_id x \<noteq> fr_id r) (driveFile db) @ [r]\<rparr>)))"

definition create_perm :: "database \<Rightarrow> perm_row \<Rightarrow> db_error + database" where
  "create_perm db r =
     (if rejectsPerm db r then Inl Rejected
      else if pr_id r \<in> pr_id ` set (drivePermission db) then Inl UniqueViolation
      else if pr_fileId r \<notin> set (file_ids db) then Inl ForeignKeyViolation
      else Inr (record_entry (PermCreated (pr_id r))
             (db\<lparr>drivePermission := drivePermission db @ [r]\<rparr>)))"

definition update_perm :: "database \<Rightarrow> perm_row \<Rightarrow> db_error + database" where
  "update_perm db r =
     (if rejectsPerm db r then Inl Rejected
      else if pr_id r \<notin> pr_id ` set (drivePermission db) then Inl RecordNotFound
      else if pr_fileId r \<notin> set (file_ids db) then Inl ForeignKeyViolation
      else Inr (record_entry (PermUpdated (pr_id r))
             (db\<lparr>drivePermission :=
                   map (\<lambda>x. if pr_id x = pr_id r then r else x) (drivePermission db)\<rparr>)))"

text \<open>\<^verbatim>\<open>drivePermission.findMany({ where: { fileId: { notIn } } })\<close>.\<close>

definition perms_fileId_notIn :: "database \<Rightarrow> string list \<Rightarrow> perm_row list" where
  "perms_fileId_notIn db ids = filter (\<lambda>p. pr_fileId p \<notin> set ids) (drivePermission db)"

definition files_id_notIn :: "database \<Rightarrow> string list \<Rightarrow> file_row list" where
  "files_id_notIn db ids = filter (\<lambda>f. fr_id f \<notin> set ids) (driveFile db)"

definition deleteMany_perm :: "database \<Rightarrow> string list \<Rightarrow> database" where
  "deleteMany_perm db ids =
     record_entry (PermsDeleted ids)
       (db\<lparr>drivePermission := filter (\<lambda>p. pr_id p \<notin> set ids) (drivePermission db)\<rparr>)"

text \<open>Deleting files deletes their permissions (\<^verbatim>\<open>ON DELETE CASCADE\<close>).\<close>

definition deleteMany_file :: "database \<Rightarrow> string list \<Rightarrow> database" where
  "deleteMany_file db ids =
     record_entry (FilesDeleted ids)
       (db\<lparr>driveFile := filter (\<lambda>f. fr_id f \<notin> set ids) (driveFile db),
           drivePermission := filter (\<lambda>p. pr_fileId p \<notin> set ids) (drivePermission db)\<rparr>)"

text \<open>
  \<^verbatim>\<open>prisma.$transaction\<close> with a callback: \<^verbatim>\<open>BEGIN\<close>, the statements of the callback,
  \<^verbatim>\<open>COMMIT\<close>. The errors that come from the database fail the open transaction; a
  record that is not there to update is found out by Prisma itself.
\<close>

definition begin_transaction :: "database \<Rightarrow> database" where
  "begin_transaction db =
     record_entry TxBegin
       (db\<lparr>tx_snapshot := Some (driveFile db, drivePermission db), tx_failed := False\<rparr>)"

fun aborts :: "db_error \<Rightarrow> bool" where
  "aborts RecordNotFound = False"
| "aborts _ = True"

definition refuse :: "db_error \<Rightarrow> database \<Rightarrow> database" where
  "refuse e db = (if tx_snapshot db \<noteq> None \<and> aborts e then db\<lparr>tx_failed := True\<rparr> else db)"

definition rollback :: "database \<Rightarrow> database" where
  "rollback db =
     (case tx_snapshot db of
        None \<Rightarrow> db
      | Some (files, permissions) \<Rightarrow> db\<lparr>driveFile := files, drivePermission := permissions\<rparr>)"

definition commit_transaction :: "database \<Rightarrow> database" where
  "commit_transaction db =
     record_entry TxCommit
       ((if tx_failed db then rollback db else db)\<lparr>tx_snapshot := None, tx_failed := False\<rparr>)"

fun is_write :: "journal_entry \<Rightarrow> bool" where
  "is_write (FileCreated _) = True"
| "is_write (FileUpdated _) = True"
| "is_write (PermCreated _) = True"
| "is_write (PermUpdated _) = True"
| "is_write _ = False"

section \<open>Change detection\<close>

datatype decision = Create | Update | Skip

definition decide_file :: "database \<Rightarrow> file_row \<Rightarrow> decision" where
  "decide_file db data =
     (case findUnique_file db (fr_id data) of
        None \<Rightarrow> Create
      | Some existingFile \<Rightarrow> if file_has_changes existingFile data then Update else Skip)"

definition decide_perm :: "database \<Rightarrow> perm_row \<Rightarrow> decision" where
  "decide_perm db data =
     (case findUnique_perm db (pr_id data) of
        None \<Rightarrow> Create
      | Some existingPermission \<Rightarrow>
          if perm_has_changes existingPermission data then Update else Skip)"

text \<open>The write each decision makes; \<open>Inl\<close> is the exception Prisma throws.\<close>

definition write_file :: "database \<Rightarrow> file_row \<Rightarrow> db_error + database" where
  "write_file db data =
     (case decide_file db data of
        Create \<Rightarrow> create_file db data
      | Update \<Rightarrow> update_file db data
      | Skip \<Rightarrow> Inr db)"

definition write_perm :: "database \<Rightarrow> perm_row \<Rightarrow> db_error + database" where
  "write_perm db data =
     (case decide_perm db data of
        Create \<Rightarrow> create_perm db data
      | Update \<Rightarrow> update_perm db data
      | Skip \<Rightarrow> Inr db)"

section \<open>Progress events\<close>

text \<open>
  A percentage is a JavaScript number: dividing by a zero total gives \<^verbatim>\<open>Infinity\<close>, or
  \<^verbatim>\<open>NaN\<close> for \<^verbatim>\<open>0 / 0\<close>, and \<^verbatim>\<open>Math.min\<close> keeps \<^verbatim>\<open>NaN\<close>. Finite values are taken
  exactly.
\<close>

datatype jsnum = NaN | Infinity | Fin real

definition js_div :: "nat \<Rightarrow> nat \<Rightarrow> jsnum" where
  "js_div a b = (if b = 0 then (if a = 0 then NaN else Infinity) else Fin (real a / real b))"

text \<open>Multiplying by, and adding, a positive constant.\<close>

fun js_times :: "jsnum \<Rightarrow> real \<Rightarrow> jsnum" where
  "js_times NaN c = NaN"
| "js_times Infinity c = Infinity"
| "js_times (Fin r) c = Fin (r * c)"

fun js_plus :: "real \<Rightarrow> jsnum \<Rightarrow> jsnum" where
  "js_plus c NaN = NaN"
| "js_plus c Infinity = Infinity"
| "js_plus c (Fin r) = Fin (c + r)"

fun Math_min :: "jsnum \<Rightarrow> real \<Rightarrow> jsnum" where
  "Math_min NaN c = NaN"
| "Math_min Infinity c = Fin c"
| "Math_min (Fin r) c = Fin (min r c)"

datatype event_type = page_loaded | file_processed

record progress_event =
  ev_type :: event_type
  ev_total :: nat
  ev_done :: nat
  ev_percent :: jsnum

section \<open>The sync service\<close>

text \<open>
  \<^verbatim>\<open>GoogleDriveSyncService\<close>: its counters, the events it has broadcast so far, in
  order, and the database it writes to.
\<close>

record engine =
  totalFiles :: nat
  processedFiles :: nat
  totalPermissions :: nat
  processedPermissions :: nat
  errors :: nat
  broadcast :: "progress_event list"
  prisma :: database

definition new_service :: "database \<Rightarrow> engine" where
  "new_service db =
     \<lparr>totalFiles = 0, processedFiles = 0, totalPermissions = 0, processedPermissions = 0,
      errors = 0, broadcast = [], prisma = db\<rparr>"

definition broadcastProgress :: "progress_event \<Rightarrow> engine \<Rightarrow> engine" where
  "broadcastProgress ev st = st\<lparr>broadcast := broadcast st @ [ev]\<rparr>"

definition tx_begin :: "engine \<Rightarrow> engine" where
  "tx_begin st = st\<lparr>prisma := begin_transaction (prisma st)\<rparr>"

definition tx_commit :: "engine \<Rightarrow> engine" where
  "tx_commit st = st\<lparr>prisma := commit_transaction (prisma st)\<rparr>"

text \<open>
  What the Drive API answers during one run. A paginated listing is the sequence of its
  pages: a page with a \<^verbatim>\<open>nextPageToken\<close> is followed by the next one, and a call may
  throw. \<open>permissions_list\<close> is \<open>None\<close> where \<^verbatim>\<open>permissions.list\<close> throws.
\<close>

datatype 'a pages = LastPage "'a list" | NextPage "'a list" "'a pages" | PageFailure

record drive =
  count_listing :: "schema_file pages"
  files_listing :: "schema_file pages"
  permissions_list :: "string \<Rightarrow> schema_permission list option"

subsection \<open>Counting\<close>

definition count_event :: "nat \<Rightarrow> progress_event" where
  "count_event totalCount =
     \<lparr>ev_type = page_loaded, ev_total = totalCount, ev_done = 0,
      ev_percent = Math_min (Fin (real totalCount / 1000 * 100)) 5\<rparr>"

fun count_loop :: "nat \<Rightarrow> 'a pages \<Rightarrow> engine \<Rightarrow> nat option \<times> engine" where
  "count_loop totalCount PageFailure st = (None, st)"
| "count_loop totalCount (LastPage files) st =
     (Some (totalCount + length files),
      broadcastProgress (count_event (totalCount + length files)) st)"
| "count_loop totalCount (NextPage files rest) st =
     count_loop (totalCount + length files) rest
       (broadcastProgress (count_event (totalCount + length files)) st)"

text \<open>The \<^verbatim>\<open>catch\<close> of \<^verbatim>\<open>getTotalFileCount\<close> returns 0.\<close>

definition getTotalFileCount :: "drive \<Rightarrow> engine \<Rightarrow> nat \<times> engine" where
  "getTotalFileCount d st =
     (case count_loop 0 (count_listing d) st of
        (None, st') \<Rightarrow> (0, st')
      | (Some n, st') \<Rightarrow> (n, st'))"

subsection \<open>Fetching and converting\<close>

definition page_event :: "nat \<Rightarrow> nat \<Rightarrow> progress_event" where
  "page_event fetched expected =
     \<lparr>ev_type = page_loaded, ev_total = expected, ev_done = fetched,
      ev_percent = Math_min (js_times (js_div fetched expected) 60) 60\<rparr>"

fun fetch_loop :: "'a list \<Rightarrow> 'a pages \<Rightarrow> engine \<Rightarrow> 'a list option \<times> engine" where
  "fetch_loop allFiles PageFailure st = (None, st)"
| "fetch_loop allFiles (LastPage files) st =
     (Some (allFiles @ files),
      broadcastProgress (page_event (length (allFiles @ files)) (totalFiles st)) st)"
| "fetch_loop allFiles (NextPage files rest) st =
     fetch_loop (allFiles @ files) rest
       (broadcastProgress (page_event (length (allFiles @ files)) (totalFiles st)) st)"

definition folder_mime :: string where
  "folder_mime = ''application/vnd.google-apps.folder''"

definition to_drive_file :: "schema_file \<Rightarrow> drive_file_data" where
  "to_drive_file file =
     \<lparr>fd_id = sf_id file,
      fd_name = str_or (sf_name file) ''Untitled'',
      fd_mimeType = str_or_null (sf_mimeType file),
      fd_parents = sf_parents file,
      fd_size = sf_size file,
      fd_createdTime = sf_createdTime file,
      fd_modifiedTime = sf_modifiedTime file,
      fd_trashed = bool_or_false (sf_trashed file),
      fd_isFolder = (sf_mimeType file = Some folder_mime)\<rparr>"

text \<open>The \<^verbatim>\<open>driveFileData\<close> literal of \<^verbatim>\<open>processFilesBatch\<close>.\<close>

definition file_row_of :: "drive_file_data \<Rightarrow> file_row" where
  "file_row_of fileData =
     \<lparr>fr_id = fd_id fileData,
      fr_name = fd_name fileData,
      fr_mimeType = fd_mimeType fileData,
      fr_parents = map_option join_comma (fd_parents fileData),
      fr_size = fd_size fileData,
      fr_modifiedTime = fd_modifiedTime fileData,
      fr_createdTime = fd_createdTime fileData,
      fr_isFolder = fd_isFolder fileData,
      fr_trashed = fd_trashed fileData\<rparr>"

subsection \<open>Persisting files in batches\<close>

definition batchSize :: nat where
  "batchSize = 10"

text \<open>\<^verbatim>\<open>files.slice(i, j)\<close> for \<open>i \<le> j\<close>.\<close>

definition slice :: "nat \<Rightarrow> nat \<Rightarrow> 'a list \<Rightarrow> 'a list" where
  "slice i j xs = take (j - i) (drop i xs)"

function make_batches :: "nat \<Rightarrow> 'a list \<Rightarrow> 'a list list" where
  "make_batches i files =
     (if i < length files then slice i (i + batchSize) files # make_batches (i + batchSize) files
      else [])"
  by pat_completeness auto
termination
  by (relation "measure (\<lambda>(i, files). length files - i)") (auto simp: batchSize_def)

definition file_event :: "nat \<Rightarrow> nat \<Rightarrow> progress_event" where
  "file_event processed expected =
     \<lparr>ev_type = file_processed, ev_total = expected, ev_done = processed,
      ev_percent = Math_min (js_plus 60 (js_times (js_div processed expected) 35)) 95\<rparr>"

text \<open>
  The body of the loop over one batch: a record that throws is counted and left. In a
  failed transaction the first call of the \<^verbatim>\<open>try\<close> block, \<^verbatim>\<open>findUnique\<close>, throws.
\<close>

definition process_file :: "drive_file_data \<Rightarrow> engine \<Rightarrow> engine" where
  "process_file fileData st =
     (if tx_failed (prisma st) then st\<lparr>errors := errors st + 1\<rparr>
      else case write_file (prisma st) (file_row_of fileData) of
             Inl e \<Rightarrow> st\<lparr>errors := errors st + 1, prisma := refuse e (prisma st)\<rparr>
           | Inr db \<Rightarrow>
               broadcastProgress (file_event (processedFiles st + 1) (totalFiles st))
                 (st\<lparr>prisma := db, processedFiles := processedFiles st + 1\<rparr>))"

text \<open>One \<^verbatim>\<open>prisma.$transaction\<close> for each batch; its callback never throws.\<close>

definition process_batch :: "drive_file_data list \<Rightarrow> engine \<Rightarrow> engine" where
  "process_batch batch st = tx_commit (fold process_file batch (tx_begin st))"

definition processFilesBatch :: "drive_file_data list \<Rightarrow> engine \<Rightarrow> engine" where
  "processFilesBatch files st = fold process_batch (make_batches 0 files) st"

text \<open>\<open>False\<close> with the state reached when a page of the listing throws.\<close>

definition syncDriveFilesWithPagination :: "drive \<Rightarrow> engine \<Rightarrow> bool \<times> engine" where
  "syncDriveFilesWithPagination d st =
     (case fetch_loop [] (files_listing d) st of
        (None, st') \<Rightarrow> (False, st')
      | (Some allFiles, st') \<Rightarrow> (True, processFilesBatch (map to_drive_file allFiles) st'))"

subsection \<open>Permissions\<close>

definition perm_row_of :: "string \<Rightarrow> schema_permission \<Rightarrow> perm_row" where
  "perm_row_of fileId permission =
     \<lparr>pr_id = sp_id permission,
      pr_fileId = fileId,
      pr_type = str_or (sp_type permission) ''user'',
      pr_role = str_or (sp_role permission) ''reader'',
      pr_emailAddress = str_or_null (sp_emailAddress permission),
      pr_domain = str_or_null (sp_domain permission),
      pr_allowFileDiscovery = bool_or_false (sp_allowFileDiscovery permission)\<rparr>"

text \<open>
  The body of the loop over one file's permissions; the second component is
  \<^verbatim>\<open>processedPermissionIds\<close>.
\<close>

definition process_permission ::
    "string \<Rightarrow> schema_permission \<Rightarrow> engine \<times> string set \<Rightarrow> engine \<times> string set" where
  "process_permission fileId permission s =
     (case s of (st, processedPermissionIds) \<Rightarrow>
        if sp_id permission \<in> processedPermissionIds then (st, processedPermissionIds)
        else if tx_failed (prisma st) then (st\<lparr>errors := errors st + 1\<rparr>, processedPermissionIds)
        else (case write_perm (prisma st) (perm_row_of fileId permission) of
                Inl e \<Rightarrow>
                  (st\<lparr>errors := errors st + 1, prisma := refuse e (prisma st)\<rparr>,
                   processedPermissionIds)
              | Inr db \<Rightarrow>
                  (st\<lparr>prisma := db, processedPermissions := processedPermissions st + 1\<rparr>,
                   insert (sp_id permission) processedPermissionIds)))"

definition permission_event :: "nat \<Rightarrow> nat \<Rightarrow> progress_event" where
  "permission_event i n =
     \<lparr>ev_type = file_processed, ev_total = n, ev_done = i + 1,
      ev_percent = Math_min (js_plus 95 (js_times (js_div i n) 5)) 100\<rparr>"

text \<open>The body of the loop over the files, for the file at index \<open>i\<close> of \<open>n\<close>.\<close>

definition sync_file_permissions ::
    "drive \<Rightarrow> nat \<Rightarrow> nat \<times> string \<Rightarrow> engine \<times> string set \<Rightarrow> engine \<times> string set" where
  "sync_file_permissions d n file s =
     (case s of (st, processedPermissionIds) \<Rightarrow>
        case permissions_list d (snd file) of
          None \<Rightarrow> (st\<lparr>errors := errors st + 1\<rparr>, processedPermissionIds)
        | Some permissions \<Rightarrow>
            (case fold (process_permission (snd file)) permissions
                    (tx_begin
                       (st\<lparr>totalPermissions := totalPermissions st + length permissions\<rparr>),
                     processedPermissionIds) of
               (st', ids') \<Rightarrow>
                 (broadcastProgress (permission_event (fst file) n) (tx_commit st'),
                  ids')))"

definition syncAllPermissions :: "drive \<Rightarrow> engine \<Rightarrow> engine" where
  "syncAllPermissions d st =
     (let allFiles = file_ids (prisma st)
      in fst (fold (sync_file_permissions d (length allFiles)) (enumerate 0 allFiles)
                (st\<lparr>totalPermissions := 0\<rparr>, {})))"

subsection \<open>Cleanup and the whole run\<close>

definition cleanupOrphanedData :: "engine \<Rightarrow> engine" where
  "cleanupOrphanedData st =
     (let allFileIds = file_ids (prisma st);
          orphanedPermissions = perms_fileId_notIn (prisma st) allFileIds
      in if length orphanedPermissions > 0
         then st\<lparr>prisma := deleteMany_perm (prisma st) (map pr_id orphanedPermissions)\<rparr>
         else st)"

text \<open>\<^verbatim>\<open>SyncStats\<close>, without the processing time.\<close>

record sync_stats =
  st_totalFiles :: nat
  st_processedFiles :: nat
  st_totalPermissions :: nat
  st_processedPermissions :: nat
  st_errors :: nat

definition getSyncStats :: "engine \<Rightarrow> sync_stats" where
  "getSyncStats st =
     \<lparr>st_totalFiles = totalFiles st, st_processedFiles = processedFiles st,
      st_totalPermissions = totalPermissions st,
      st_processedPermissions = processedPermissions st, st_errors = errors st\<rparr>"

text \<open>
  What the run ends with: \<^verbatim>\<open>broadcastSyncComplete(stats)\<close> and the returned stats, or
  \<^verbatim>\<open>broadcastSyncError\<close> and the exception thrown again.
\<close>

datatype sync_outcome = SyncComplete sync_stats | SyncError

definition startSync :: "drive \<Rightarrow> engine \<Rightarrow> sync_outcome \<times> engine" where
  "startSync d st =
     (case getTotalFileCount d st of (n, st1) \<Rightarrow>
        case syncDriveFilesWithPagination d (st1\<lparr>totalFiles := n\<rparr>) of
          (False, st2) \<Rightarrow> (SyncError, st2)
        | (True, st2) \<Rightarrow>
            (let st4 = cleanupOrphanedData (syncAllPermissions d st2)
             in (SyncComplete (getSyncStats st4), st4)))"

section \<open>The one-shot sync endpoint\<close>

text \<open>
  \<^verbatim>\<open>GoogleDriveService\<close>: one listing call without pagination, \<open>None\<close> when it throws,
  and a permission listing that answers an empty list when its call throws.
\<close>

definition listAllFiles :: "schema_file list option \<Rightarrow> drive_file_data list option" where
  "listAllFiles response =
     map_option (map (\<lambda>file.
       \<lparr>fd_id = sf_id file,
        fd_name = str_or (sf_name file) [],
        fd_mimeType = str_or_null (sf_mimeType file),
        fd_parents = sf_parents file,
        fd_size = sf_size file,
        fd_createdTime = sf_createdTime file,
        fd_modifiedTime = sf_modifiedTime file,
        fd_trashed = bool_or_false (sf_trashed file),
        fd_isFolder = (sf_mimeType file = Some folder_mime)\<rparr>)) response"

definition getFilePermissions ::
    "(string \<Rightarrow> schema_permission list option) \<Rightarrow> string \<Rightarrow> drive_permission_data list" where
  "getFilePermissions listing fileId =
     (case listing fileId of
        None \<Rightarrow> []
      | Some permissions \<Rightarrow>
          map (\<lambda>permission.
            \<lparr>pd_id = sp_id permission,
             pd_fileId = fileId,
             pd_type = str_or (sp_type permission) [],
             pd_role = str_or (sp_role permission) [],
             pd_emailAddress = str_or_null (sp_emailAddress permission),
             pd_domain = str_or_null (sp_domain permission),
             pd_allowFileDiscovery = bool_or_false (sp_allowFileDiscovery permission)\<rparr>)
            permissions)"

definition syncAllData ::
    "schema_file list option \<Rightarrow> (string \<Rightarrow> schema_permission list option) \<Rightarrow>
     (drive_file_data list \<times> drive_permission_data list) option" where
  "syncAllData response listing =
     (case listAllFiles response of
        None \<Rightarrow> None
      | Some files \<Rightarrow>
          Some (files, concat (map (\<lambda>file. getFilePermissions listing (fd_id file)) files)))"

definition cleanupOrphanedRecords :: "drive_file_data list \<Rightarrow> database \<Rightarrow> database" where
  "cleanupOrphanedRecords currentFiles db =
     (let currentFileIds = map fd_id currentFiles;
          orphanedPermissions = perms_fileId_notIn db currentFileIds;
          db1 = (if length orphanedPermissions > 0
                 then deleteMany_perm db (map pr_id orphanedPermissions) else db);
          orphanedFiles = files_id_notIn db1 currentFileIds
      in if length orphanedFiles > 0
         then deleteMany_file db1 (map fr_id orphanedFiles) else db1)"

text \<open>The \<^verbatim>\<open>driveFileData\<close> literal of \<^verbatim>\<open>syncDriveFiles\<close>, with its \<^verbatim>\<open>||\<close> defaults.\<close>

definition oneshot_file_row :: "drive_file_data \<Rightarrow> file_row" where
  "oneshot_file_row fileData =
     \<lparr>fr_id = fd_id fileData,
      fr_name = str_or (Some (fd_name fileData)) ''Untitled'',
      fr_mimeType = str_or_null (fd_mimeType fileData),
      fr_parents = map_option join_comma (fd_parents fileData),
      fr_size = int_or_null (fd_size fileData),
      fr_modifiedTime = fd_modifiedTime fileData,
      fr_createdTime = fd_createdTime fileData,
      fr_isFolder = fd_isFolder fileData,
      fr_trashed = fd_trashed fileData\<rparr>"

definition oneshot_perm_row :: "drive_permission_data \<Rightarrow> perm_row" where
  "oneshot_perm_row permissionData =
     \<lparr>pr_id = pd_id permissionData,
      pr_fileId = pd_fileId permissionData,
      pr_type = str_or (Some (pd_type permissionData)) ''user'',
      pr_role = str_or (Some (pd_role permissionData)) ''reader'',
      pr_emailAddress = str_or_null (pd_emailAddress permissionData),
      pr_domain = str_or_null (pd_domain permissionData),
      pr_allowFileDiscovery = pd_allowFileDiscovery permissionData\<rparr>"

record sync_counts =
  upserted :: nat
  updated :: nat
  skipped :: nat
  failed :: nat

definition no_counts :: sync_counts where
  "no_counts = \<lparr>upserted = 0, updated = 0, skipped = 0, failed = 0\<rparr>"

text \<open>
  One turn of the loop of \<^verbatim>\<open>syncDriveFiles\<close>, and of \<^verbatim>\<open>syncDrivePermissions\<close>. In a
  failed transaction \<^verbatim>\<open>findUnique\<close> throws, and the record is counted as an error.
\<close>

definition sync_file_step :: "drive_file_data \<Rightarrow> sync_counts \<times> database \<Rightarrow> sync_counts \<times> database" where
  "sync_file_step fileData s =
     (case s of (c, db) \<Rightarrow>
        if tx_failed db then (c\<lparr>failed := failed c + 1\<rparr>, db)
        else case decide_file db (oneshot_file_row fileData) of
          Skip \<Rightarrow> (c\<lparr>skipped := skipped c + 1\<rparr>, db)
        | Update \<Rightarrow>
            (case update_file db (oneshot_file_row fileData) of
               Inl e \<Rightarrow> (c\<lparr>failed := failed c + 1\<rparr>, refuse e db)
             | Inr db' \<Rightarrow> (c\<lparr>updated := updated c + 1\<rparr>, db'))
        | Create \<Rightarrow>
            (case create_file db (oneshot_file_row fileData) of
               Inl e \<Rightarrow> (c\<lparr>failed := failed c + 1\<rparr>, refuse e db)
             | Inr db' \<Rightarrow> (c\<lparr>upserted := upserted c + 1\<rparr>, db')))"

definition sync_perm_step ::
    "drive_permission_data \<Rightarrow> sync_counts \<times> database \<Rightarrow> sync_counts \<times> database" where
  "sync_perm_step permissionData s =
     (case s of (c, db) \<Rightarrow>
        if tx_failed db then (c\<lparr>failed := failed c + 1\<rparr>, db)
        else case decide_perm db (oneshot_perm_row permissionData) of
          Skip \<Rightarrow> (c\<lparr>skipped := skipped c + 1\<rparr>, db)
        | Update \<Rightarrow>
            (case update_perm db (oneshot_perm_row permissionData) of
               Inl e \<Rightarrow> (c\<lparr>failed := failed c + 1\<rparr>, refuse e db)
             | Inr db' \<Rightarrow> (c\<lparr>updated := updated c + 1\<rparr>, db'))
        | Create \<Rightarrow>
            (case create_perm db (oneshot_perm_row permissionData) of
               Inl e \<Rightarrow> (c\<lparr>failed := failed c + 1\<rparr>, refuse e db)
             | Inr db' \<Rightarrow> (c\<lparr>upserted := upserted c + 1\<rparr>, db')))"

record files_result =
  fs_counts :: sync_counts
  fs_total :: nat

record permissions_result =
  ps_counts :: sync_counts
  ps_cleaned :: nat
  ps_total :: nat

definition syncDriveFiles :: "drive_file_data list \<Rightarrow> database \<Rightarrow> files_result \<times> database" where
  "syncDriveFiles files db =
     (case fold sync_file_step files (no_counts, begin_transaction db) of
        (c, db') \<Rightarrow> (\<lparr>fs_counts = c, fs_total = length files\<rparr>, commit_transaction db'))"

definition syncDrivePermissions ::
    "drive_permission_data list \<Rightarrow> drive_file_data list \<Rightarrow> database \<Rightarrow>
     permissions_result \<times> database" where
  "syncDrivePermissions permissions files db =
     (let cleaned = 0;
          validFileIds = set (map fd_id files);
          validPermissions = filter (\<lambda>p. pd_fileId p \<in> validFileIds) permissions
      in case fold sync_perm_step validPermissions (no_counts, begin_transaction db) of
           (c, db') \<Rightarrow>
             (\<lparr>ps_counts = c, ps_cleaned = cleaned, ps_total = length validPermissions\<rparr>,
              commit_transaction db'))"

record integrity =
  orphanedPermissions :: nat
  invalidFileReferences :: nat
  isConsistent :: bool

definition verifyDataIntegrity :: "database \<Rightarrow> integrity" where
  "verifyDataIntegrity db =
     (let orphaned = length (perms_fileId_notIn db (file_ids db))
      in \<lparr>orphanedPermissions = orphaned,
          invalidFileReferences = length (perms_fileId_notIn db (file_ids db)),
          isConsistent = (orphaned = 0)\<rparr>)"

text \<open>The response of \<^verbatim>\<open>POST\<close>: the statistics, or status 500.\<close>

record sync_report =
  rp_files_total :: nat
  rp_files :: sync_counts
  rp_permissions_total :: nat
  rp_permissions :: sync_counts
  rp_permissions_cleaned :: nat
  rp_integrity :: integrity
  rp_totalDriveFiles :: nat
  rp_totalDrivePermissions :: nat

datatype post_response = Synced sync_report | Status500

definition POST ::
    "schema_file list option \<Rightarrow> (string \<Rightarrow> schema_permission list option) \<Rightarrow> database \<Rightarrow>
     post_response \<times> database" where
  "POST response listing db =
     (case syncAllData response listing of
        None \<Rightarrow> (Status500, db)
      | Some (files, allPermissions) \<Rightarrow>
          (let db1 = cleanupOrphanedRecords files db
           in case syncDriveFiles files db1 of (filesResult, db2) \<Rightarrow>
              case syncDrivePermissions allPermissions files db2 of (permissionsResult, db3) \<Rightarrow>
                (Synced
                   \<lparr>rp_files_total = length files,
                    rp_files = fs_counts filesResult,
                    rp_permissions_total = length allPermissions,
                    rp_permissions = ps_counts permissionsResult,
                    rp_permissions_cleaned = ps_cleaned permissionsResult,
                    rp_integrity = verifyDataIntegrity db3,
                    rp_totalDriveFiles = length (driveFile db3),
                    rp_totalDrivePermissions = length (drivePermission db3)\<rparr>,
                 db3)))"

section \<open>The start request\<close>

text \<open>
  \<^verbatim>\<open>handleStartSync\<close> builds a service and starts its run without awaiting it. The runs
  started and not yet finished are kept here as the list of their target folders;
  \<open>credentials\<close> says whether the constructor of the service finds its key file, the one
  thing in the handler that can throw.
\<close>

record start_response =
  sr_status :: nat
  sr_success :: bool
  sr_folderId :: string

definition handleStartSync ::
    "bool \<Rightarrow> string option \<Rightarrow> string option list \<Rightarrow> start_response \<times> string option list" where
  "handleStartSync credentials folderId running =
     (if credentials
      then (\<lparr>sr_status = 200, sr_success = True, sr_folderId = str_or folderId ''all''\<rparr>,
            running @ [folderId])
      else (\<lparr>sr_status = 500, sr_success = False, sr_folderId = []\<rparr>, running))"

section \<open>Relations between states and example data\<close>

text \<open>
  Drive identifiers are non-empty and hold no comma; on such parents the comma-joined
  text determines the list.
\<close>

definition wf_ids :: "string list \<Rightarrow> bool" where
  "wf_ids xs \<longleftrightarrow> (\<forall>x\<in>set xs. x \<noteq> [] \<and> CHR '','' \<notin> set x)"

definition wf_parents :: "drive_file_data \<Rightarrow> bool" where
  "wf_parents fileData \<longleftrightarrow> (case fd_parents fileData of None \<Rightarrow> True | Some ps \<Rightarrow> wf_ids ps)"

definition empty_db :: database where
  "empty_db = \<lparr>driveFile = [], drivePermission = [], journal = [],
               rejectsFile = (\<lambda>r. False), rejectsPerm = (\<lambda>r. False),
               tx_snapshot = None, tx_failed = False\<rparr>"

definition data_A :: drive_file_data where
  "data_A = \<lparr>fd_id = ''A'', fd_name = ''a.txt'', fd_mimeType = Some ''text/plain'',
             fd_parents = Some [''p1'', ''p2''], fd_size = Some 5, fd_createdTime = Some 50,
             fd_modifiedTime = Some 100, fd_trashed = False, fd_isFolder = False\<rparr>"

definition row_A :: file_row where
  "row_A = \<lparr>fr_id = ''A'', fr_name = ''a.txt'', fr_mimeType = Some ''text/plain'',
            fr_parents = Some ''p1,p2'', fr_size = Some 5, fr_modifiedTime = Some 100,
            fr_createdTime = Some 50, fr_isFolder = False, fr_trashed = False\<rparr>"

definition grant_1 :: perm_row where
  "grant_1 = \<lparr>pr_id = ''g1'', pr_fileId = ''A'', pr_type = ''user'', pr_role = ''reader'',
              pr_emailAddress = Some ''u@example.org'', pr_domain = None,
              pr_allowFileDiscovery = False\<rparr>"

definition db_A :: database where
  "db_A = empty_db\<lparr>driveFile := [row_A], drivePermission := [grant_1]\<rparr>"


definition bare_permission :: schema_permission where
  "bare_permission = \<lparr>sp_id = ''g2'', sp_type = None, sp_role = None,
      sp_emailAddress = None, sp_domain = None, sp_allowFileDiscovery = None\<rparr>"

text \<open>What processing the records \<open>xs\<close> leaves behind, whatever the database refuses.\<close>

definition files_ok :: "drive_file_data list \<Rightarrow> engine \<Rightarrow> engine \<Rightarrow> bool" where
  "files_ok xs st st' \<longleftrightarrow>
     processedFiles st' + errors st' = processedFiles st + errors st + length xs
     \<and> errors st \<le> errors st'
     \<and> set (file_ids (prisma st)) \<subseteq> set (file_ids (prisma st'))
     \<and> rejectsFile (prisma st') = rejectsFile (prisma st)
     \<and> rejectsPerm (prisma st') = rejectsPerm (prisma st)
     \<and> drivePermission (prisma st') = drivePermission (prisma st)
     \<and> totalFiles st' = totalFiles st"

definition int4_db :: database where
  "int4_db = empty_db\<lparr>rejectsFile := (\<lambda>r. case fr_size r of None \<Rightarrow> False | Some n \<Rightarrow> 2147483647 < n)\<rparr>"

definition big_file :: drive_file_data where
  "big_file = data_A\<lparr>fd_id := ''big'', fd_size := Some 5000000000\<rparr>"

definition twelve_files :: "drive_file_data list" where
  "twelve_files =
     map (\<lambda>i. data_A\<lparr>fd_id := i\<rparr>) [''f01'', ''f02'', ''f03'', ''f04'', ''f05'', ''f06'']
     @ [big_file]
     @ map (\<lambda>i. data_A\<lparr>fd_id := i\<rparr>) [''f08'', ''f09'', ''f10'', ''f11'', ''f12'']"

definition perm_entries :: "drive_permission_data list \<Rightarrow> journal_entry set" where
  "perm_entries ps = (\<Union>p\<in>set ps. {PermCreated (pd_id p), PermUpdated (pd_id p)})"

definition perms_ok ::
    "drive_permission_data list \<Rightarrow> sync_counts \<times> database \<Rightarrow> sync_counts \<times> database \<Rightarrow> bool" where
  "perms_ok ps s s' \<longleftrightarrow>
     upserted (fst s') + updated (fst s') + skipped (fst s') + failed (fst s') =
       upserted (fst s) + updated (fst s) + skipped (fst s) + failed (fst s) + length ps
     \<and> set (drivePermission (snd s')) \<subseteq> set (drivePermission (snd s)) \<union> oneshot_perm_row ` set ps
     \<and> driveFile (snd s') = driveFile (snd s)
     \<and> tx_snapshot (snd s') = tx_snapshot (snd s)
     \<and> (\<exists>W. journal (snd s') = journal (snd s) @ W \<and> set W \<subseteq> perm_entries ps)"

definition orphan_grant :: perm_row where
  "orphan_grant = grant_1\<lparr>pr_id := ''g9'', pr_fileId := ''gone''\<rparr>"

definition db_orphan :: database where
  "db_orphan = empty_db\<lparr>driveFile := [row_A], drivePermission := [grant_1, orphan_grant]\<rparr>"

definition listed_A :: "schema_file list" where
  "listed_A = [\<lparr>sf_id = ''A'', sf_name = Some ''a.txt'', sf_mimeType = Some ''text/plain'',
      sf_parents = Some [''p1'', ''p2''], sf_size = Some 5, sf_createdTime = Some 50,
      sf_modifiedTime = Some 100, sf_trashed = Some False\<rparr>]"

definition grants_of_A :: "string \<Rightarrow> schema_permission list option" where
  "grants_of_A fileId =
     (if fileId = ''A''
      then Some [\<lparr>sp_id = ''g1'', sp_type = Some ''user'', sp_role = Some ''reader'',
                  sp_emailAddress = Some ''u@example.org'', sp_domain = None,
                  sp_allowFileDiscovery = None\<rparr>, bare_permission]
      else None)"

definition stray_permissions :: "drive_permission_data list" where
  "stray_permissions =
     [\<lparr>pd_id = ''g1'', pd_fileId = ''A'', pd_type = ''user'', pd_role = ''reader'',
       pd_emailAddress = Some ''u@example.org'', pd_domain = None, pd_allowFileDiscovery = False\<rparr>,
      \<lparr>pd_id = ''g7'', pd_fileId = ''elsewhere'', pd_type = ''user'', pd_role = ''writer'',
       pd_emailAddress = None, pd_domain = None, pd_allowFileDiscovery = False\<rparr>,
      \<lparr>pd_id = ''g8'', pd_fileId = ''A'', pd_type = [], pd_role = [],
       pd_emailAddress = None, pd_domain = None, pd_allowFileDiscovery = False\<rparr>]"

text \<open>JavaScript's \<^verbatim>\<open>a <= b\<close> on the numbers above: false whenever \<^verbatim>\<open>NaN\<close> is involved.\<close>

fun js_le :: "jsnum \<Rightarrow> jsnum \<Rightarrow> bool" where
  "js_le (Fin a) (Fin b) = (a \<le> b)"
| "js_le (Fin a) Infinity = True"
| "js_le Infinity Infinity = True"
| "js_le _ _ = False"

text \<open>Every later event's percentage is at least every earlier event's.\<close>

definition nondecreasing :: "progress_event list \<Rightarrow> bool" where
  "nondecreasing evs = sorted_wrt js_le (map ev_percent evs)"

text \<open>Events with finite, non-decreasing percentages between two bounds.\<close>

definition percents_within :: "real \<Rightarrow> real \<Rightarrow> progress_event list \<Rightarrow> bool" where
  "percents_within lo hi evs \<longleftrightarrow>
     lo \<le> hi \<and> (\<exists>rs. map ev_percent evs = map Fin rs \<and> sorted rs \<and> (\<forall>r\<in>set rs. lo \<le> r \<and> r \<le> hi))"

definition emits :: "real \<Rightarrow> real \<Rightarrow> engine \<Rightarrow> engine \<Rightarrow> bool" where
  "emits lo hi st st' \<longleftrightarrow> (\<exists>evs. broadcast st' = broadcast st @ evs \<and> percents_within lo hi evs)"

text \<open>The percentages of the four phases, on a positive total.\<close>

definition count_percent :: "nat \<Rightarrow> real" where
  "count_percent n = min (real n / 1000 * 100) 5"

definition page_percent :: "nat \<Rightarrow> nat \<Rightarrow> real" where
  "page_percent n fetched = min (real fetched / real n * 60) 60"

definition file_percent :: "nat \<Rightarrow> nat \<Rightarrow> real" where
  "file_percent n processed = min (60 + real processed / real n * 35) 95"

definition permission_percent :: "nat \<Rightarrow> nat \<Rightarrow> real" where
  "permission_percent n i = min (95 + real i / real n * 5) 100"

definition file_trace :: "engine \<Rightarrow> engine \<Rightarrow> bool" where
  "file_trace st st' \<longleftrightarrow>
     totalFiles st' = totalFiles st \<and>
     emits (file_percent (totalFiles st) (processedFiles st))
           (file_percent (totalFiles st) (processedFiles st')) st st'"

definition counted :: "drive \<Rightarrow> engine \<Rightarrow> engine" where
  "counted d st = (snd (getTotalFileCount d st))\<lparr>totalFiles := fst (getTotalFileCount d st)\<rparr>"

definition fetched :: "drive \<Rightarrow> engine \<Rightarrow> schema_file list option \<times> engine" where
  "fetched d st = fetch_loop [] (files_listing d) (counted d st)"

text \<open>A drive of 2000 files, listed in 20 pages of 100, with no permissions.\<close>

definition numbered_file :: "nat \<Rightarrow> schema_file" where
  "numbered_file i = \<lparr>sf_id = CHR ''f'' # replicate i (CHR ''+''), sf_name = None,
      sf_mimeType = None, sf_parents = None, sf_size = None, sf_createdTime = None,
      sf_modifiedTime = None, sf_trashed = None\<rparr>"

definition hundred_files :: "nat \<Rightarrow> schema_file list" where
  "hundred_files k = map numbered_file [100 * k ..< 100 * k + 100]"

fun pages_from :: "nat \<Rightarrow> nat \<Rightarrow> schema_file pages" where
  "pages_from k 0 = LastPage (hundred_files k)"
| "pages_from k (Suc m) = NextPage (hundred_files k) (pages_from (Suc k) m)"

definition drive_2000 :: drive where
  "drive_2000 = \<lparr>count_listing = pages_from 0 19, files_listing = pages_from 0 19,
                  permissions_list = (\<lambda>fileId. Some [])\<rparr>"

fun first_page :: "'a pages \<Rightarrow> 'a list" where
  "first_page (LastPage files) = files"
| "first_page (NextPage files rest) = files"
| "first_page PageFailure = []"

text \<open>A drive of two files and a folder, listed in two pages, with five permissions.\<close>

definition remote_file :: "string \<Rightarrow> string \<Rightarrow> string \<Rightarrow> schema_file" where
  "remote_file i name mime = \<lparr>sf_id = i, sf_name = Some name, sf_mimeType = Some mime,
      sf_parents = Some [''root''], sf_size = Some 10, sf_createdTime = Some 1000,
      sf_modifiedTime = Some 2000, sf_trashed = Some False\<rparr>"

definition remote_grant :: "string \<Rightarrow> string \<Rightarrow> schema_permission" where
  "remote_grant i role = \<lparr>sp_id = i, sp_type = Some ''user'', sp_role = Some role,
      sp_emailAddress = None, sp_domain = None, sp_allowFileDiscovery = Some False\<rparr>"

definition small_files :: "schema_file list" where
  "small_files = [remote_file ''F1'' ''one.txt'' ''text/plain'',
                  remote_file ''F2'' ''two.txt'' ''text/plain'',
                  remote_file ''D1'' ''docs'' folder_mime]"

definition small_drive :: drive where
  "small_drive =
     \<lparr>count_listing = LastPage small_files,
      files_listing = NextPage (take 2 small_files) (LastPage (drop 2 small_files)),
      permissions_list = (\<lambda>fileId.
        if fileId = ''F1'' then Some [remote_grant ''g1'' ''owner'', remote_grant ''g2'' ''reader'']
        else if fileId = ''F2'' then Some [remote_grant ''g3'' ''writer'']
        else if fileId = ''D1'' then Some [remote_grant ''g4'' ''owner'', remote_grant ''g5'' ''reader'']
        else None)\<rparr>"

definition small_run :: engine where
  "small_run = cleanupOrphanedData (syncAllPermissions small_drive
      (processFilesBatch (map to_drive_file small_files)
         (snd (fetched small_drive (new_service empty_db)))))"

definition perm_ids :: "database \<Rightarrow> string set" where
  "perm_ids db = pr_id ` set (drivePermission db)"

text \<open>
  The row the table holds for an id once the rows \<open>occs\<close> have been processed in order,
  starting with the ids \<open>seen\<close> already processed: the first of the rows with that id,
  unless the id had been processed before.
\<close>

definition expected_lookup ::
    "perm_row list \<Rightarrow> string set \<Rightarrow> database \<Rightarrow> string \<Rightarrow> perm_row option" where
  "expected_lookup occs seen db i =
     (if i \<in> seen then findUnique_perm db i
      else case find (\<lambda>r. pr_id r = i) occs of
             Some r \<Rightarrow> Some r
           | None \<Rightarrow> findUnique_perm db i)"

definition acceptable :: "perm_row list \<Rightarrow> engine \<Rightarrow> bool" where
  "acceptable occs st \<longleftrightarrow>
     (\<forall>r\<in>set occs. pr_fileId r \<in> set (file_ids (prisma st)) \<and> \<not> rejectsPerm (prisma st) r)"

definition grants_ok ::
    "nat \<Rightarrow> perm_row list \<Rightarrow> engine \<times> string set \<Rightarrow> engine \<times> string set \<Rightarrow> bool" where
  "grants_ok k occs s s' \<longleftrightarrow>
     driveFile (prisma (fst s')) = driveFile (prisma (fst s))
     \<and> rejectsFile (prisma (fst s')) = rejectsFile (prisma (fst s))
     \<and> rejectsPerm (prisma (fst s')) = rejectsPerm (prisma (fst s))
     \<and> totalFiles (fst s') = totalFiles (fst s)
     \<and> processedFiles (fst s') = processedFiles (fst s)
     \<and> perm_ids (prisma (fst s)) \<subseteq> perm_ids (prisma (fst s'))
     \<and> snd s \<subseteq> snd s'
     \<and> (distinct (map pr_id (drivePermission (prisma (fst s)))) \<longrightarrow>
          distinct (map pr_id (drivePermission (prisma (fst s')))))
     \<and> (acceptable occs (fst s) \<longrightarrow>
          errors (fst s') = errors (fst s) + k
          \<and> snd s' = snd s \<union> pr_id ` set occs
          \<and> (snd s \<subseteq> perm_ids (prisma (fst s)) \<longrightarrow> snd s' \<subseteq> perm_ids (prisma (fst s')))
          \<and> (\<forall>i. findUnique_perm (prisma (fst s')) i =
                   expected_lookup occs (snd s) (prisma (fst s)) i))"

text \<open>
  The same inside one transaction: it stays open, and when it had not failed and every
  row is acceptable it has not failed in the end and no error is counted.
\<close>

definition grants_tx ::
    "perm_row list \<Rightarrow> engine \<times> string set \<Rightarrow> engine \<times> string set \<Rightarrow> bool" where
  "grants_tx occs s s' \<longleftrightarrow>
     tx_snapshot (prisma (fst s')) = tx_snapshot (prisma (fst s))
     \<and> (tx_failed (prisma (fst s)) \<longrightarrow> tx_failed (prisma (fst s')))
     \<and> driveFile (prisma (fst s')) = driveFile (prisma (fst s))
     \<and> rejectsFile (prisma (fst s')) = rejectsFile (prisma (fst s))
     \<and> rejectsPerm (prisma (fst s')) = rejectsPerm (prisma (fst s))
     \<and> totalFiles (fst s') = totalFiles (fst s)
     \<and> processedFiles (fst s') = processedFiles (fst s)
     \<and> perm_ids (prisma (fst s)) \<subseteq> perm_ids (prisma (fst s'))
     \<and> snd s \<subseteq> snd s'
     \<and> (distinct (map pr_id (drivePermission (prisma (fst s)))) \<longrightarrow>
          distinct (map pr_id (drivePermission (prisma (fst s')))))
     \<and> (\<not> tx_failed (prisma (fst s)) \<and> acceptable occs (fst s) \<longrightarrow>
          \<not> tx_failed (prisma (fst s'))
          \<and> errors (fst s') = errors (fst s)
          \<and> snd s' = snd s \<union> pr_id ` set occs
          \<and> (snd s \<subseteq> perm_ids (prisma (fst s)) \<longrightarrow> snd s' \<subseteq> perm_ids (prisma (fst s')))
          \<and> (\<forall>i. findUnique_perm (prisma (fst s')) i =
                   expected_lookup occs (snd s) (prisma (fst s)) i))"

text \<open>The rows the listings of the files \<open>fs\<close> give, in order.\<close>

definition listed_rows :: "drive \<Rightarrow> string list \<Rightarrow> perm_row list" where
  "listed_rows d fs =
     concat (map (\<lambda>f. case permissions_list d f of
                           None \<Rightarrow> [] | Some ps \<Rightarrow> map (perm_row_of f) ps) fs)"

definition failed_listings :: "drive \<Rightarrow> string list \<Rightarrow> nat" where
  "failed_listings d fs = length (filter (\<lambda>f. permissions_list d f = None) fs)"




definition writes_to :: "string \<Rightarrow> journal_entry list \<Rightarrow> nat" where
  "writes_to i W = length (filter (\<lambda>e. e = PermCreated i \<or> e = PermUpdated i) W)"

definition once_ok ::
    "perm_row list \<Rightarrow> engine \<times> string set \<Rightarrow> engine \<times> string set \<Rightarrow> bool" where
  "once_ok occs s s' \<longleftrightarrow>
     snd s \<subseteq> snd s' \<and> snd s' \<subseteq> snd s \<union> pr_id ` set occs
     \<and> processedPermissions (fst s') = processedPermissions (fst s) + card (snd s' - snd s)
     \<and> (\<exists>W. journal (prisma (fst s')) = journal (prisma (fst s)) @ W
            \<and> (\<forall>i. writes_to i W \<le> (if i \<in> snd s' - snd s then 1 else 0)))"

text \<open>
  Two files that list the same permission id, and a persistence layer that refuses every
  permission it is asked to write.
\<close>

definition link_grant :: schema_permission where
  "link_grant = \<lparr>sp_id = ''anyoneWithLink'', sp_type = Some ''anyone'', sp_role = Some ''reader'',
      sp_emailAddress = None, sp_domain = None, sp_allowFileDiscovery = Some False\<rparr>"

definition refusing_db :: database where
  "refusing_db = empty_db\<lparr>driveFile := [row_A\<lparr>fr_id := ''F1''\<rparr>, row_A\<lparr>fr_id := ''F2''\<rparr>],
                          rejectsPerm := (\<lambda>r. True)\<rparr>"

definition two_files_db :: database where
  "two_files_db = empty_db\<lparr>driveFile := [row_A\<lparr>fr_id := ''F1''\<rparr>, row_A\<lparr>fr_id := ''F2''\<rparr>]\<rparr>"

definition shared_drive :: drive where
  "shared_drive = \<lparr>count_listing = PageFailure, files_listing = PageFailure,
      permissions_list = (\<lambda>fileId. Some [link_grant])\<rparr>"

text \<open>All pages of a listing, when no call throws.\<close>

fun all_pages :: "'a pages \<Rightarrow> 'a list option" where
  "all_pages (LastPage files) = Some files"
| "all_pages (NextPage files rest) = map_option ((@) files) (all_pages rest)"
| "all_pages PageFailure = None"

definition files_written :: "drive_file_data list \<Rightarrow> engine \<Rightarrow> engine \<Rightarrow> bool" where
  "files_written xs st st' \<longleftrightarrow>
     rejectsFile (prisma st') = rejectsFile (prisma st)
     \<and> rejectsPerm (prisma st') = rejectsPerm (prisma st)
     \<and> drivePermission (prisma st') = drivePermission (prisma st)
     \<and> ((\<forall>x\<in>set xs. \<not> rejectsFile (prisma st) (file_row_of x)) \<and> distinct (map fd_id xs) \<longrightarrow>
          (\<forall>x\<in>set xs. findUnique_file (prisma st') (fd_id x) = Some (file_row_of x))
          \<and> (\<forall>i. i \<notin> fd_id ` set xs \<longrightarrow> findUnique_file (prisma st') i = findUnique_file (prisma st) i)
          \<and> errors st' = errors st)"

text \<open>The tables are as they were, and the journal has no new create or update.\<close>

definition quiet :: "engine \<Rightarrow> engine \<Rightarrow> bool" where
  "quiet st st' \<longleftrightarrow>
     driveFile (prisma st') = driveFile (prisma st)
     \<and> drivePermission (prisma st') = drivePermission (prisma st)
     \<and> rejectsFile (prisma st') = rejectsFile (prisma st)
     \<and> rejectsPerm (prisma st') = rejectsPerm (prisma st)
     \<and> filter is_write (journal (prisma st')) = filter is_write (journal (prisma st))"

text \<open>
  Every id not yet processed has, as its persisted row, the first of the rows \<open>occs\<close>
  still to come with that id.
\<close>

definition persisted_first :: "perm_row list \<Rightarrow> string set \<Rightarrow> database \<Rightarrow> bool" where
  "persisted_first occs seen db \<longleftrightarrow>
     (\<forall>i r. i \<notin> seen \<longrightarrow> find (\<lambda>r. pr_id r = i) occs = Some r \<longrightarrow> findUnique_perm db i = Some r)"

text \<open>
  The table holds \<open>A\<close>, \<open>B\<close> and \<open>C\<close>, with a permission on \<open>A\<close> and one on \<open>C\<close>; the drive
  lists \<open>A\<close> and \<open>B\<close> only. \<open>C\<close> is in the trash, so its permissions can still be listed.
\<close>

definition listed_AB :: "schema_file list" where
  "listed_AB = [remote_file ''A'' ''a.txt'' ''text/plain'', remote_file ''B'' ''b.txt'' ''text/plain'']"

definition db_ABC :: database where
  "db_ABC = empty_db
     \<lparr>driveFile := map (\<lambda>x. file_row_of (to_drive_file x))
         (listed_AB @ [remote_file ''C'' ''c.txt'' ''text/plain'']),
      drivePermission := [perm_row_of ''A'' (remote_grant ''gA'' ''owner''),
                          perm_row_of ''C'' (remote_grant ''gC'' ''owner'')]\<rparr>"

definition drive_AB :: drive where
  "drive_AB =
     \<lparr>count_listing = LastPage listed_AB,
      files_listing = LastPage listed_AB,
      permissions_list = (\<lambda>fileId.
        if fileId = ''A'' then Some [remote_grant ''gA'' ''owner'']
        else if fileId = ''B'' then Some []
        else if fileId = ''C'' then Some [remote_grant ''gC'' ''owner'']
        else None)\<rparr>"

definition run_AB :: engine where
  "run_AB = cleanupOrphanedData (syncAllPermissions drive_AB
      (processFilesBatch (map to_drive_file listed_AB) (snd (fetched drive_AB (new_service db_ABC)))))"

text \<open>
  A drive with two files that carry the same permission id, as every file shared by link
  does.
\<close>

definition link_files :: "schema_file list" where
  "link_files = [remote_file ''F1'' ''one.txt'' ''text/plain'',
                 remote_file ''F2'' ''two.txt'' ''text/plain'']"

definition link_drive :: drive where
  "link_drive = \<lparr>count_listing = LastPage link_files, files_listing = LastPage link_files,
      permissions_list = (\<lambda>fileId. Some [link_grant])\<rparr>"

text \<open>The store a first one-shot sync of that drive leaves, and the one a first streaming run leaves.\<close>

definition link_posted :: database where
  "link_posted = snd (POST (Some link_files) (permissions_list link_drive) empty_db)"

definition link_run :: engine where
  "link_run = cleanupOrphanedData (syncAllPermissions link_drive
      (processFilesBatch (map to_drive_file link_files)
         (snd (fetched link_drive (new_service empty_db)))))"

definition link_rerun :: engine where
  "link_rerun = cleanupOrphanedData (syncAllPermissions link_drive
      (processFilesBatch (map to_drive_file link_files)
         (snd (fetched link_drive (new_service (prisma link_run))))))"


text \<open>
  What the records \<open>xs\<close> leave behind inside one transaction: it stays open, and it has
  not failed in the end when it had not failed before and no record is refused.
\<close>

definition batch_ok :: "drive_file_data list \<Rightarrow> engine \<Rightarrow> engine \<Rightarrow> bool" where
  "batch_ok xs st st' \<longleftrightarrow>
     files_ok xs st st'
     \<and> tx_snapshot (prisma st') = tx_snapshot (prisma st)
     \<and> (tx_failed (prisma st) \<longrightarrow> tx_failed (prisma st'))
     \<and> (\<not> tx_failed (prisma st) \<longrightarrow>
          files_written xs st st'
          \<and> ((\<forall>x\<in>set xs. \<not> rejectsFile (prisma st) (file_row_of x)) \<longrightarrow>
                 \<not> tx_failed (prisma st')))"

section \<open>Change detection compares the rows\<close>

lemma members_inj: "members a = members b \<Longrightarrow> a = b"
proof (induction a arbitrary: b rule: members.induct)
  case 1 then show ?case by (cases b rule: members.cases) auto
next
  case (2 k v) then show ?case by (cases b rule: members.cases) auto
next
  case (3 k v m ms) then show ?case by (cases b rule: members.cases) auto
qed

lemma JSON_stringify_inj: "JSON_stringify a = JSON_stringify b \<longleftrightarrow> a = b"
  by (auto simp: JSON_stringify_def dest: members_inj)

lemma assign_fresh: "k \<notin> fst ` set ob \<Longrightarrow> assign ob k v = ob @ [(k, v)]"
  by (induction ob) auto

lemma assign_keys: "k \<in> fst ` set ob \<Longrightarrow> map fst (assign ob k v) = map fst ob"
  by (induction ob) force+

lemma map_of_assign: "map_of (assign ob k v) = (map_of ob)(k \<mapsto> v)"
  by (induction ob) auto

lemma assign_all_Cons: "assign_all ob (kv # b) = assign_all (assign ob (fst kv) (snd kv)) b"
  by (simp add: assign_all_def)

lemma assign_all_fresh:
  "distinct (map fst a) \<Longrightarrow> fst ` set ob \<inter> fst ` set a = {} \<Longrightarrow> assign_all ob a = ob @ a"
proof (induction a arbitrary: ob)
  case Nil then show ?case by (simp add: assign_all_def)
next
  case (Cons kv a)
  have "assign ob (fst kv) (snd kv) = ob @ [kv]"
    using Cons.prems by (simp add: assign_fresh)
  moreover have "assign_all (ob @ [kv]) a = (ob @ [kv]) @ a"
    using Cons.prems by (intro Cons.IH) auto
  ultimately show ?case by (simp add: assign_all_Cons)
qed

lemma assign_all_keys:
  "fst ` set b \<subseteq> fst ` set ob \<Longrightarrow> map fst (assign_all ob b) = map fst ob"
proof (induction b arbitrary: ob)
  case Nil then show ?case by (simp add: assign_all_def)
next
  case (Cons kv b)
  have k: "map fst (assign ob (fst kv) (snd kv)) = map fst ob"
    using Cons.prems by (simp add: assign_keys)
  then have "fst ` set (assign ob (fst kv) (snd kv)) = fst ` set ob"
    by (metis list.set_map)
  then have "map fst (assign_all (assign ob (fst kv) (snd kv)) b) = map fst (assign ob (fst kv) (snd kv))"
    using Cons.prems by (intro Cons.IH) auto
  then show ?case by (simp add: assign_all_Cons k)
qed

lemma map_of_assign_all:
  "distinct (map fst b) \<Longrightarrow> map_of (assign_all ob b) = map_of ob ++ map_of b"
proof (induction b arbitrary: ob)
  case Nil then show ?case by (simp add: assign_all_def)
next
  case (Cons kv b)
  have "map_of (assign_all (assign ob (fst kv) (snd kv)) b) = (map_of ob)(fst kv \<mapsto> snd kv) ++ map_of b"
    using Cons by (simp add: map_of_assign)
  also have "\<dots> = map_of ob ++ map_of (kv # b)"
  proof
    fix x
    have "fst kv \<notin> dom (map_of b)" using Cons.prems by (simp add: dom_map_of_conv_image_fst)
    then show "((map_of ob)(fst kv \<mapsto> snd kv) ++ map_of b) x = (map_of ob ++ map_of (kv # b)) x"
      by (cases kv) (auto simp: map_add_def split: option.splits)
  qed
  finally show ?case unfolding assign_all_Cons .
qed

lemma obj_eqI:
  "map fst x = map fst y \<Longrightarrow> map_of x = map_of y \<Longrightarrow> distinct (map fst x) \<Longrightarrow> x = y"
proof (induction x arbitrary: y)
  case Nil then show ?case by simp
next
  case (Cons a x)
  obtain k v where a: "a = (k, v)" by (cases a)
  from Cons.prems(1) a obtain w y' where y: "y = (k, w) # y'" and ks: "map fst x = map fst y'"
    by (cases y) auto
  have "map_of (a # x) k = map_of y k" using Cons.prems(2) by (rule fun_cong)
  then have vw: "v = w" using a y by simp
  have kx: "k \<notin> set (map fst x)" using Cons.prems(3) a by simp
  have "map_of x = map_of y'"
  proof
    fix j
    show "map_of x j = map_of y' j"
    proof (cases "j = k")
      case True
      have "map_of x k = None" using kx by (simp add: map_of_eq_None_iff)
      moreover have "map_of y' k = None" using kx ks by (simp add: map_of_eq_None_iff)
      ultimately show ?thesis using True by simp
    next
      case False
      have "map_of (a # x) j = map_of y j" using Cons.prems(2) by (rule fun_cong)
      then show ?thesis using False a y by simp
    qed
  qed
  moreover have "distinct (map fst x)" using Cons.prems(3) by simp
  ultimately have "x = y'" using ks by (rule Cons.IH [rotated])
  then show ?case using a y vw by simp
qed

lemma has_changes_any_order:
  assumes "distinct (map fst eo)" "distinct (map fst b)" "fst ` set b = fst ` set eo"
  shows "has_changes eo b \<longleftrightarrow> set eo \<noteq> set b"
proof -
  have s: "spread eo b = assign_all eo b"
    using assms(1) assign_all_fresh [of eo "[]"] by (simp add: spread_def)
  have k: "map fst (assign_all eo b) = map fst eo"
    using assms(3) by (simp add: assign_all_keys)
  have "dom (map_of eo) \<subseteq> dom (map_of b)"
    using assms(3) by (simp add: dom_map_of_conv_image_fst)
  then have "map_of eo ++ map_of b = map_of b"
    by (auto simp: map_add_def fun_eq_iff split: option.splits)
  then have m: "map_of (assign_all eo b) = map_of b"
    using assms(2) by (simp add: map_of_assign_all)
  have "eo = assign_all eo b \<longleftrightarrow> map_of eo = map_of b"
    using obj_eqI [of eo "assign_all eo b"] k m assms(1) by auto
  also have "\<dots> \<longleftrightarrow> set eo = set b"
    using assms(1,2) by (rule map_of_inject_set)
  finally show ?thesis
    by (simp add: has_changes_def JSON_stringify_inj s)
qed

lemma file_spread: "spread (file_object e) (file_object d) = file_object d"
  by (simp add: spread_def assign_all_def file_object_def)

lemma perm_spread: "spread (perm_object e) (perm_object d) = perm_object d"
  by (simp add: spread_def assign_all_def perm_object_def)

lemma opt_js_eq [simp]:
  "opt_js JStr a = opt_js JStr b \<longleftrightarrow> a = b"
  "opt_js JNum c = opt_js JNum d \<longleftrightarrow> c = d"
  "opt_js JDate c = opt_js JDate d \<longleftrightarrow> c = d"
  by (auto simp: opt_js_def split: option.splits)

lemma file_object_inj: "file_object e = file_object d \<longleftrightarrow> e = (d::file_row)"
  by (cases e; cases d) (auto simp: file_object_def)

lemma perm_object_inj: "perm_object e = perm_object d \<longleftrightarrow> e = (d::perm_row)"
  by (cases e; cases d) (auto simp: perm_object_def)

lemma file_has_changes_iff: "file_has_changes e d \<longleftrightarrow> e \<noteq> d"
  by (simp add: file_has_changes_def has_changes_def JSON_stringify_inj file_spread file_object_inj)

lemma perm_has_changes_iff: "perm_has_changes e d \<longleftrightarrow> e \<noteq> d"
  by (simp add: perm_has_changes_def has_changes_def JSON_stringify_inj perm_spread perm_object_inj)

lemma file_object_keys:
  "map fst (file_object r) =
     [''id'', ''name'', ''mimeType'', ''parents'', ''size'', ''modifiedTime'', ''createdTime'',
      ''isFolder'', ''trashed'']"
  by (simp add: file_object_def)

lemma file_object_distinct: "distinct (map fst (file_object r))"
  by (simp add: file_object_keys)

lemma perm_object_keys:
  "map fst (perm_object r) =
     [''id'', ''fileId'', ''type'', ''role'', ''emailAddress'', ''domain'', ''allowFileDiscovery'']"
  by (simp add: perm_object_def)

lemma perm_object_distinct: "distinct (map fst (perm_object r))"
  by (simp add: perm_object_keys)

lemma file_object_set_inj: "set (file_object e) = set (file_object d) \<longleftrightarrow> e = d"
proof
  assume "set (file_object e) = set (file_object d)"
  then have "map_of (file_object e) = map_of (file_object d)"
    using map_of_inject_set [OF file_object_distinct file_object_distinct] by blast
  then have "file_object e = file_object d"
    by (intro obj_eqI) (simp_all add: file_object_keys)
  then show "e = d" by (simp add: file_object_inj)
qed simp

lemma perm_object_set_inj: "set (perm_object e) = set (perm_object d) \<longleftrightarrow> e = d"
proof
  assume "set (perm_object e) = set (perm_object d)"
  then have "map_of (perm_object e) = map_of (perm_object d)"
    using map_of_inject_set [OF perm_object_distinct perm_object_distinct] by blast
  then have "perm_object e = perm_object d"
    by (intro obj_eqI) (simp_all add: perm_object_keys)
  then show "e = d" by (simp add: perm_object_inj)
qed simp

lemma file_changes_any_order:
  assumes "distinct (map fst eo)" "set eo = set (file_object ex)"
  shows "has_changes eo (file_object data) \<longleftrightarrow> ex \<noteq> data"
proof -
  have "fst ` set (file_object data) = fst ` set eo"
    using assms(2) file_object_keys [of data] file_object_keys [of ex]
    by (metis list.set_map)
  then have "has_changes eo (file_object data) \<longleftrightarrow> set eo \<noteq> set (file_object data)"
    using assms(1) file_object_distinct by (intro has_changes_any_order)
  then show ?thesis by (simp add: assms(2) file_object_set_inj)
qed

lemma perm_changes_any_order:
  assumes "distinct (map fst eo)" "set eo = set (perm_object ex)"
  shows "has_changes eo (perm_object data) \<longleftrightarrow> ex \<noteq> data"
proof -
  have "fst ` set (perm_object data) = fst ` set eo"
    using assms(2) perm_object_keys [of data] perm_object_keys [of ex]
    by (metis list.set_map)
  then have "has_changes eo (perm_object data) \<longleftrightarrow> set eo \<noteq> set (perm_object data)"
    using assms(1) perm_object_distinct by (intro has_changes_any_order)
  then show ?thesis by (simp add: assms(2) perm_object_set_inj)
qed

lemma decide_file_eq:
  "decide_file db data =
     (case findUnique_file db (fr_id data) of
        None \<Rightarrow> Create | Some ex \<Rightarrow> if ex = data then Skip else Update)"
  by (simp add: decide_file_def file_has_changes_iff split: option.splits)

lemma decide_perm_eq:
  "decide_perm db data =
     (case findUnique_perm db (pr_id data) of
        None \<Rightarrow> Create | Some ex \<Rightarrow> if ex = data then Skip else Update)"
  by (simp add: decide_perm_def perm_has_changes_iff split: option.splits)

subsection \<open>Lookups\<close>

lemma find_None_image: "find (\<lambda>r. f r = i) xs = None \<longleftrightarrow> i \<notin> f ` set xs"
  by (auto simp: find_None_iff)

lemma find_Some_pred: "find P xs = Some r \<Longrightarrow> P r \<and> r \<in> set xs"
  by (induction xs) (auto split: if_splits)

lemma find_append_new:
  "find P xs = None \<Longrightarrow> find P (xs @ [r]) = (if P r then Some r else None)"
  by (induction xs) (auto split: if_splits)

lemma find_append_old: "find P xs = Some y \<Longrightarrow> find P (xs @ ys) = Some y"
  by (induction xs) (auto split: if_splits)

lemma find_append: "find P (xs @ ys) = (case find P xs of None \<Rightarrow> find P ys | Some y \<Rightarrow> Some y)"
  by (induction xs) auto

lemma find_replace_same:
  "find (\<lambda>x. f x = f r) xs \<noteq> None \<Longrightarrow>
   find (\<lambda>x. f x = f r) (map (\<lambda>x. if f x = f r then r else x) xs) = Some r"
  by (induction xs) auto

lemma find_replace_other:
  "i \<noteq> f r \<Longrightarrow>
   find (\<lambda>x. f x = i) (map (\<lambda>x. if f x = f r then r else x) xs) = find (\<lambda>x. f x = i) xs"
  by (induction xs) auto

lemma find_move_same:
  "find (\<lambda>x. f x = f r) (filter (\<lambda>x. f x \<noteq> f r) xs @ [r]) = Some r"
  by (induction xs) auto

lemma find_move_other:
  "i \<noteq> f r \<Longrightarrow>
   find (\<lambda>x. f x = i) (filter (\<lambda>x. f x \<noteq> f r) xs @ [r]) = find (\<lambda>x. f x = i) xs"
  by (induction xs) auto

lemma map_replace_ids: "map f (map (\<lambda>x. if f x = f r then r else x) xs) = map f xs"
  by (induction xs) auto

lemma find_filter_keep: "find P xs = Some r \<Longrightarrow> Q r \<Longrightarrow> find P (filter Q xs) = Some r"
  by (induction xs) (auto split: if_splits)

lemma findUnique_file_None: "findUnique_file db i = None \<longleftrightarrow> i \<notin> set (file_ids db)"
  by (simp add: findUnique_file_def file_ids_def find_None_image)

lemma findUnique_perm_None: "findUnique_perm db i = None \<longleftrightarrow> i \<notin> pr_id ` set (drivePermission db)"
  by (simp add: findUnique_perm_def find_None_image)

lemma findUnique_file_id: "findUnique_file db i = Some r \<Longrightarrow> fr_id r = i"
  by (auto simp: findUnique_file_def dest: find_Some_pred)

lemma findUnique_perm_id: "findUnique_perm db i = Some r \<Longrightarrow> pr_id r = i"
  by (auto simp: findUnique_perm_def dest: find_Some_pred)

lemma file_ids_member: "i \<in> set (file_ids db) \<longleftrightarrow> findUnique_file db i \<noteq> None"
  by (simp add: findUnique_file_None)

lemma perm_ids_member: "i \<in> pr_id ` set (drivePermission db) \<longleftrightarrow> findUnique_perm db i \<noteq> None"
  by (simp add: findUnique_perm_None)

subsection \<open>What a write does\<close>

lemma write_file_skip: "findUnique_file db (fr_id r) = Some r \<Longrightarrow> write_file db r = Inr db"
  by (simp add: write_file_def decide_file_eq)

lemma write_perm_skip: "findUnique_perm db (pr_id r) = Some r \<Longrightarrow> write_perm db r = Inr db"
  by (simp add: write_perm_def decide_perm_eq)

lemma write_file_cases:
  "write_file db r =
     (if findUnique_file db (fr_id r) = Some r then Inr db
      else if rejectsFile db r then Inl Rejected
      else if findUnique_file db (fr_id r) = None
      then Inr (record_entry (FileCreated (fr_id r)) (db\<lparr>driveFile := driveFile db @ [r]\<rparr>))
      else Inr (record_entry (FileUpdated (fr_id r))
             (db\<lparr>driveFile := filter (\<lambda>x. fr_id x \<noteq> fr_id r) (driveFile db) @ [r]\<rparr>)))"
  by (auto simp: write_file_def decide_file_eq create_file_def update_file_def
        file_ids_member split: option.splits)

lemma write_perm_cases:
  "write_perm db r =
     (if findUnique_perm db (pr_id r) = Some r then Inr db
      else if rejectsPerm db r then Inl Rejected
      else if pr_fileId r \<notin> set (file_ids db) then Inl ForeignKeyViolation
      else if findUnique_perm db (pr_id r) = None
      then Inr (record_entry (PermCreated (pr_id r))
             (db\<lparr>drivePermission := drivePermission db @ [r]\<rparr>))
      else Inr (record_entry (PermUpdated (pr_id r))
             (db\<lparr>drivePermission :=
                   map (\<lambda>x. if pr_id x = pr_id r then r else x) (drivePermission db)\<rparr>)))"
  by (auto simp: write_perm_def decide_perm_eq create_perm_def update_perm_def
        perm_ids_member split: option.splits)

lemma record_entry_simps [simp]:
  "driveFile (record_entry e db) = driveFile db"
  "drivePermission (record_entry e db) = drivePermission db"
  "rejectsFile (record_entry e db) = rejectsFile db"
  "rejectsPerm (record_entry e db) = rejectsPerm db"
  "journal (record_entry e db) = journal db @ [e]"
  "file_ids (record_entry e db) = file_ids db"
  "tx_snapshot (record_entry e db) = tx_snapshot db"
  "tx_failed (record_entry e db) = tx_failed db"
  by (simp_all add: record_entry_def file_ids_def)

lemma findUnique_file_record_entry [simp]:
  "findUnique_file (record_entry e db) i = findUnique_file db i"
  by (simp add: findUnique_file_def record_entry_def)

lemma findUnique_perm_record_entry [simp]:
  "findUnique_perm (record_entry e db) i = findUnique_perm db i"
  by (simp add: findUnique_perm_def record_entry_def)

lemma write_file_lookup:
  assumes "write_file db r = Inr db'"
  shows "findUnique_file db' (fr_id r) = Some r"
proof (cases "findUnique_file db (fr_id r) = Some r")
  case True
  then show ?thesis using assms by (simp add: write_file_cases)
next
  case False
  note neq = this
  show ?thesis
  proof (cases "findUnique_file db (fr_id r) = None")
    case True
    then have "db' = record_entry (FileCreated (fr_id r)) (db\<lparr>driveFile := driveFile db @ [r]\<rparr>)"
      using assms neq by (simp add: write_file_cases split: if_splits)
    moreover have "find (\<lambda>x. fr_id x = fr_id r) (driveFile db @ [r]) = Some r"
      using True by (simp add: findUnique_file_def find_append_new)
    ultimately show ?thesis by (simp add: findUnique_file_def)
  next
    case False
    then have "db' = record_entry (FileUpdated (fr_id r))
         (db\<lparr>driveFile := filter (\<lambda>x. fr_id x \<noteq> fr_id r) (driveFile db) @ [r]\<rparr>)"
      using assms neq by (simp add: write_file_cases split: if_splits)
    moreover have "find (\<lambda>x. fr_id x = fr_id r)
        (filter (\<lambda>x. fr_id x \<noteq> fr_id r) (driveFile db) @ [r]) = Some r"
      by (rule find_move_same)
    ultimately show ?thesis by (simp add: findUnique_file_def)
  qed
qed

lemma write_perm_lookup:
  assumes "write_perm db r = Inr db'"
  shows "findUnique_perm db' (pr_id r) = Some r"
proof (cases "findUnique_perm db (pr_id r) = Some r")
  case True
  then show ?thesis using assms by (simp add: write_perm_cases)
next
  case False
  note neq = this
  show ?thesis
  proof (cases "findUnique_perm db (pr_id r) = None")
    case True
    then have "db' = record_entry (PermCreated (pr_id r))
         (db\<lparr>drivePermission := drivePermission db @ [r]\<rparr>)"
      using assms neq by (simp add: write_perm_cases split: if_splits)
    moreover have "find (\<lambda>x. pr_id x = pr_id r) (drivePermission db @ [r]) = Some r"
      using True by (simp add: findUnique_perm_def find_append_new)
    ultimately show ?thesis by (simp add: findUnique_perm_def)
  next
    case False
    then have "db' = record_entry (PermUpdated (pr_id r))
         (db\<lparr>drivePermission :=
               map (\<lambda>x. if pr_id x = pr_id r then r else x) (drivePermission db)\<rparr>)"
      using assms neq by (simp add: write_perm_cases split: if_splits)
    moreover have "find (\<lambda>x. pr_id x = pr_id r)
        (map (\<lambda>x. if pr_id x = pr_id r then r else x) (drivePermission db)) = Some r"
      using False by (intro find_replace_same) (simp add: findUnique_perm_def)
    ultimately show ?thesis by (simp add: findUnique_perm_def)
  qed
qed

lemma sep_split:
  "c \<notin> set x \<Longrightarrow> c \<notin> set y \<Longrightarrow> x @ c # a = y @ c # b \<Longrightarrow> x = y \<and> a = b"
proof (induction x arbitrary: y)
  case Nil then show ?case by (cases y) auto
next
  case (Cons h x) then show ?case by (cases y) auto
qed

lemma join_comma_no_sep:
  "CHR '','' \<notin> set x \<Longrightarrow> x \<noteq> y @ CHR '','' # b"
  by auto

lemma join_comma_inj:
  "wf_ids xs \<Longrightarrow> wf_ids ys \<Longrightarrow> join_comma xs = join_comma ys \<Longrightarrow> xs = ys"
proof (induction xs arbitrary: ys rule: join_comma.induct)
  case 1
  then show ?case by (cases ys rule: join_comma.cases) (auto simp: wf_ids_def)
next
  case (2 x)
  then show ?case by (cases ys rule: join_comma.cases) (auto simp: wf_ids_def)
next
  case (3 x y zs)
  show ?case
  proof (cases ys rule: join_comma.cases)
    case 1 then show ?thesis using 3 by (auto simp: wf_ids_def)
  next
    case (2 u) then show ?thesis using 3 by (auto simp: wf_ids_def)
  next
    case (3 u v ws)
    have "x @ CHR '','' # join_comma (y # zs) = u @ CHR '','' # join_comma (v # ws)"
      using "3.prems"(3) 3 by simp
    moreover have "CHR '','' \<notin> set x" "CHR '','' \<notin> set u"
      using "3.prems"(1,2) 3 by (auto simp: wf_ids_def)
    ultimately have xu: "x = u \<and> join_comma (y # zs) = join_comma (v # ws)"
      by (intro sep_split)
    have "wf_ids (y # zs)" "wf_ids (v # ws)"
      using "3.prems"(1,2) 3 by (auto simp: wf_ids_def)
    then have "y # zs = v # ws" using xu by (intro "3.IH") simp_all
    then show ?thesis using xu 3 by simp
  qed
qed

lemma file_row_of_inj:
  assumes "wf_parents a" "wf_parents b" "file_row_of a = file_row_of b"
  shows "a = b"
proof -
  have p: "map_option join_comma (fd_parents a) = map_option join_comma (fd_parents b)"
    using assms(3) by (simp add: file_row_of_def)
  have "fd_parents a = fd_parents b"
  proof (cases "fd_parents a")
    case None then show ?thesis using p by (cases "fd_parents b") auto
  next
    case (Some xs)
    then obtain ys where ys: "fd_parents b = Some ys" "join_comma xs = join_comma ys"
      using p by (cases "fd_parents b") auto
    have "xs = ys" using assms(1,2) Some ys by (intro join_comma_inj) (simp_all add: wf_parents_def)
    then show ?thesis using Some ys by simp
  qed
  then show ?thesis using assms(3) by (cases a; cases b) (simp add: file_row_of_def)
qed

text \<open>
  Claim C5 (change-detection precision). The decision for an incoming row is create when
  no row with its primary key is persisted, update when the persisted row differs from it
  in any column, and skip when the two rows are equal: the comparison of the two
  \<^verbatim>\<open>JSON.stringify\<close> texts decides exactly the equality of the rows. A persisted row
  and an incoming row that differ only in \<open>modifiedTime\<close> give one update, which the
  journal records once; an incoming row equal to the persisted one gives a skip and no
  write. The order in which the persisted object enumerates its properties does not
  matter: for every enumeration of the same properties the comparison gives the same
  answer. The parents are compared as the comma-joined text the row stores; incoming
  records with well-formed parent identifiers that differ in any field have different
  rows.
\<close>

theorem change_detection_precision:
  "decide_file db data =
     (case findUnique_file db (fr_id data) of
        None \<Rightarrow> Create
      | Some existing \<Rightarrow> if existing = data then Skip else Update)
   \<and> decide_perm db pdata =
     (case findUnique_perm db (pr_id pdata) of
        None \<Rightarrow> Create
      | Some existing \<Rightarrow> if existing = pdata then Skip else Update)
   \<and> (findUnique_file db (fr_id ex) = Some ex \<and> fr_modifiedTime ex \<noteq> t \<longrightarrow>
        decide_file db (ex\<lparr>fr_modifiedTime := t\<rparr>) = Update)
   \<and> (findUnique_file db (fr_id ex) = Some ex \<longrightarrow>
        decide_file db ex = Skip \<and> write_file db ex = Inr db)
   \<and> (decide_file db data = Update \<and> \<not> rejectsFile db data \<longrightarrow>
        (\<exists>db'. write_file db data = Inr db' \<and>
               journal db' = journal db @ [FileUpdated (fr_id data)]))
   \<and> (\<forall>eo. distinct (map fst eo) \<and> set eo = set (file_object ex) \<longrightarrow>
          has_changes eo (file_object data) = (ex \<noteq> data))
   \<and> (\<forall>eo. distinct (map fst eo) \<and> set eo = set (perm_object pex) \<longrightarrow>
          has_changes eo (perm_object pdata) = (pex \<noteq> pdata))
   \<and> (wf_parents a \<and> wf_parents b \<and> a \<noteq> b \<longrightarrow> file_row_of a \<noteq> file_row_of b)"
proof (intro conjI allI impI)
  show "decide_file db data =
     (case findUnique_file db (fr_id data) of
        None \<Rightarrow> Create | Some existing \<Rightarrow> if existing = data then Skip else Update)"
    by (rule decide_file_eq)
  show "decide_perm db pdata =
     (case findUnique_perm db (pr_id pdata) of
        None \<Rightarrow> Create | Some existing \<Rightarrow> if existing = pdata then Skip else Update)"
    by (rule decide_perm_eq)
next
  assume a: "findUnique_file db (fr_id ex) = Some ex \<and> fr_modifiedTime ex \<noteq> t"
  have "ex \<noteq> ex\<lparr>fr_modifiedTime := t\<rparr>"
  proof
    assume "ex = ex\<lparr>fr_modifiedTime := t\<rparr>"
    then have "fr_modifiedTime ex = fr_modifiedTime (ex\<lparr>fr_modifiedTime := t\<rparr>)" by simp
    then show False using a by simp
  qed
  then show "decide_file db (ex\<lparr>fr_modifiedTime := t\<rparr>) = Update"
    using a by (simp add: decide_file_eq)
next
  assume a: "findUnique_file db (fr_id ex) = Some ex"
  show "decide_file db ex = Skip" using a by (simp add: decide_file_eq)
  show "write_file db ex = Inr db" using a by (rule write_file_skip)
next
  assume a: "decide_file db data = Update \<and> \<not> rejectsFile db data"
  then have "findUnique_file db (fr_id data) \<noteq> None" "findUnique_file db (fr_id data) \<noteq> Some data"
    by (auto simp: decide_file_eq split: option.splits if_splits)
  then show "\<exists>db'. write_file db data = Inr db' \<and>
               journal db' = journal db @ [FileUpdated (fr_id data)]"
    using a by (simp add: write_file_cases)
next
  fix eo assume "distinct (map fst eo) \<and> set eo = set (file_object ex)"
  then show "has_changes eo (file_object data) = (ex \<noteq> data)"
    by (simp add: file_changes_any_order)
next
  fix eo assume "distinct (map fst eo) \<and> set eo = set (perm_object pex)"
  then show "has_changes eo (perm_object pdata) = (pex \<noteq> pdata)"
    by (simp add: perm_changes_any_order)
next
  assume "wf_parents a \<and> wf_parents b \<and> a \<noteq> b"
  then show "file_row_of a \<noteq> file_row_of b"
    using file_row_of_inj by blast
qed

theorem change_detection_precision_witness:
  "decide_file db_A (row_A\<lparr>fr_id := ''B''\<rparr>) = Create
   \<and> decide_file db_A (row_A\<lparr>fr_modifiedTime := Some 200\<rparr>) = Update
   \<and> decide_file db_A row_A = Skip
   \<and> write_file db_A row_A = Inr db_A
   \<and> (\<exists>db'. write_file db_A (row_A\<lparr>fr_modifiedTime := Some 200\<rparr>) = Inr db' \<and>
             journal db' = [FileUpdated ''A''])
   \<and> decide_perm db_A (grant_1\<lparr>pr_role := ''writer''\<rparr>) = Update
   \<and> decide_perm db_A grant_1 = Skip
   \<and> has_changes (rev (file_object row_A)) (file_object (row_A\<lparr>fr_modifiedTime := Some 200\<rparr>))
   \<and> \<not> has_changes (rev (file_object row_A)) (file_object row_A)
   \<and> \<not> has_changes (rev (perm_object grant_1)) (perm_object grant_1)
   \<and> file_row_of data_A \<noteq> file_row_of (data_A\<lparr>fd_parents := Some [''p2'', ''p1'']\<rparr>)"
proof -
  have f: "findUnique_file db_A ''A'' = Some row_A" "findUnique_file db_A ''B'' = None"
    by (simp_all add: findUnique_file_def db_A_def row_A_def)
  have g: "findUnique_perm db_A ''g1'' = Some grant_1"
    by (simp add: findUnique_perm_def db_A_def grant_1_def)
  have ids: "fr_id row_A = ''A''" "pr_id grant_1 = ''g1''" "fr_modifiedTime row_A = Some 100"
    "pr_role grant_1 = ''reader''"
    by (simp_all add: row_A_def grant_1_def)
  have ne: "row_A \<noteq> row_A\<lparr>fr_modifiedTime := Some 200\<rparr>" "grant_1 \<noteq> grant_1\<lparr>pr_role := ''writer''\<rparr>"
    by (simp_all add: row_A_def grant_1_def)
  have o: "distinct (map fst (rev (file_object row_A))) \<and>
           set (rev (file_object row_A)) = set (file_object row_A)"
    "distinct (map fst (rev (perm_object grant_1))) \<and>
           set (rev (perm_object grant_1)) = set (perm_object grant_1)"
    by (simp_all add: file_object_distinct perm_object_distinct rev_map [symmetric])
  have w: "wf_parents data_A" "wf_parents (data_A\<lparr>fd_parents := Some [''p2'', ''p1'']\<rparr>)"
    "data_A \<noteq> data_A\<lparr>fd_parents := Some [''p2'', ''p1'']\<rparr>"
    by (simp_all add: wf_parents_def wf_ids_def data_A_def)
  have j: "journal db_A = []" "\<not> rejectsFile db_A r" for r
    by (simp_all add: db_A_def empty_db_def)
  note c1 = change_detection_precision [where db = db_A and data = "row_A\<lparr>fr_id := ''B''\<rparr>"
      and pdata = "grant_1\<lparr>pr_role := ''writer''\<rparr>" and ex = row_A and t = "Some 200"
      and pex = grant_1 and a = data_A and b = "data_A\<lparr>fd_parents := Some [''p2'', ''p1'']\<rparr>"]
  note c2 = change_detection_precision [where db = db_A
      and data = "row_A\<lparr>fr_modifiedTime := Some 200\<rparr>"
      and pdata = grant_1 and ex = row_A and t = "Some 200"
      and pex = grant_1 and a = data_A and b = "data_A\<lparr>fd_parents := Some [''p2'', ''p1'']\<rparr>"]
  note c3 = change_detection_precision [where db = db_A and data = row_A
      and pdata = grant_1 and ex = row_A and t = "Some 200"
      and pex = grant_1 and a = data_A and b = "data_A\<lparr>fd_parents := Some [''p2'', ''p1'']\<rparr>"]
  have "has_changes (rev (file_object row_A)) (file_object (row_A\<lparr>fr_modifiedTime := Some 200\<rparr>))"
    using c2 o(1) ne(1) by blast
  moreover have "\<not> has_changes (rev (file_object row_A)) (file_object row_A)"
    using c3 o(1) by blast
  moreover have "\<not> has_changes (rev (perm_object grant_1)) (perm_object grant_1)"
    using c3 o(2) by blast
  ultimately show ?thesis
    using c1 c2 f g ne w j by (simp add: ids)
qed



section \<open>The file phase\<close>

subsection \<open>Batches\<close>

lemma make_batches_step:
  "i < length files \<Longrightarrow>
   make_batches i files = slice i (i + batchSize) files # make_batches (i + batchSize) files"
  by (subst make_batches.simps) simp

lemma make_batches_done: "\<not> i < length files \<Longrightarrow> make_batches i files = []"
  by (subst make_batches.simps) simp

declare make_batches.simps [simp del]

lemma make_batches_concat: "concat (make_batches i files) = drop i files"
proof (induction i files rule: make_batches.induct)
  case (1 i files)
  show ?case
  proof (cases "i < length files")
    case True
    have "take batchSize (drop i files) @ drop (i + batchSize) files = drop i files"
      by (metis add.commute append_take_drop_id drop_drop)
    then show ?thesis using True 1 by (simp add: make_batches_step slice_def)
  next
    case False
    then show ?thesis by (simp add: make_batches_done)
  qed
qed

lemma make_batches_sizes:
  "b \<in> set (make_batches i files) \<Longrightarrow> 0 < length b \<and> length b \<le> batchSize"
proof (induction i files rule: make_batches.induct)
  case (1 i files)
  show ?case
  proof (cases "i < length files")
    case True
    then have "b = slice i (i + batchSize) files \<or> b \<in> set (make_batches (i + batchSize) files)"
      using "1.prems" by (simp add: make_batches_step)
    then show ?thesis
    proof
      assume "b = slice i (i + batchSize) files"
      then show ?thesis using True by (simp add: slice_def batchSize_def)
    next
      assume "b \<in> set (make_batches (i + batchSize) files)"
      then show ?thesis using True "1.IH" by simp
    qed
  next
    case False
    then show ?thesis using "1.prems" by (simp add: make_batches_done)
  qed
qed

lemma make_batches_nth:
  "k < length (make_batches i files) \<Longrightarrow>
   make_batches i files ! k = take batchSize (drop (i + batchSize * k) files)"
proof (induction i files arbitrary: k rule: make_batches.induct)
  case (1 i files)
  show ?case
  proof (cases "i < length files")
    case True
    note lt = this
    note eq = make_batches_step [OF lt]
    show ?thesis
    proof (cases k)
      case 0
      then show ?thesis by (simp add: eq slice_def)
    next
      case (Suc j)
      then have "j < length (make_batches (i + batchSize) files)"
        using "1.prems" eq by simp
      then have "make_batches (i + batchSize) files ! j =
                 take batchSize (drop (i + batchSize + batchSize * j) files)"
        using lt by (rule "1.IH" [rotated])
      then show ?thesis using Suc by (simp add: eq add.assoc)
    qed
  next
    case False
    then show ?thesis using "1.prems" by (simp add: make_batches_done)
  qed
qed

lemma batches_arith: "i < n \<Longrightarrow> Suc ((n - (i + 10) + 9) div 10) = (n - i + 9) div (10::nat)"
  by (cases "i + 10 \<le> n") simp_all

lemma make_batches_length:
  "length (make_batches i files) = (length files - i + (batchSize - 1)) div batchSize"
proof (induction i files rule: make_batches.induct)
  case (1 i files)
  show ?case
  proof (cases "i < length files")
    case True
    have "length (make_batches i files) = Suc (length (make_batches (i + batchSize) files))"
      using True by (simp add: make_batches_step)
    also have "\<dots> = Suc ((length files - (i + batchSize) + (batchSize - 1)) div batchSize)"
      using True 1 by simp
    also have "\<dots> = (length files - i + (batchSize - 1)) div batchSize"
      using True by (simp add: batchSize_def batches_arith)
    finally show ?thesis .
  next
    case False
    then show ?thesis by (simp add: make_batches_done batchSize_def)
  qed
qed

subsection \<open>Engine fields\<close>

lemma begin_transaction_simps [simp]:
  "driveFile (begin_transaction db) = driveFile db"
  "drivePermission (begin_transaction db) = drivePermission db"
  "rejectsFile (begin_transaction db) = rejectsFile db"
  "rejectsPerm (begin_transaction db) = rejectsPerm db"
  "journal (begin_transaction db) = journal db @ [TxBegin]"
  "file_ids (begin_transaction db) = file_ids db"
  "tx_snapshot (begin_transaction db) = Some (driveFile db, drivePermission db)"
  "tx_failed (begin_transaction db) = False"
  "findUnique_file (begin_transaction db) i = findUnique_file db i"
  "findUnique_perm (begin_transaction db) i = findUnique_perm db i"
  by (simp_all add: begin_transaction_def file_ids_def findUnique_file_def findUnique_perm_def)

lemma commit_transaction_simps [simp]:
  "rejectsFile (commit_transaction db) = rejectsFile db"
  "rejectsPerm (commit_transaction db) = rejectsPerm db"
  "journal (commit_transaction db) = journal db @ [TxCommit]"
  "tx_snapshot (commit_transaction db) = None"
  "tx_failed (commit_transaction db) = False"
  by (simp_all add: commit_transaction_def rollback_def split: option.splits)

text \<open>A commit keeps the tables of a transaction that has not failed, and otherwise puts back those it began with.\<close>

lemma commit_transaction_tables:
  "tx_snapshot db = Some (fs, ps) \<Longrightarrow>
   driveFile (commit_transaction db) = (if tx_failed db then fs else driveFile db)
   \<and> drivePermission (commit_transaction db) = (if tx_failed db then ps else drivePermission db)"
  by (simp add: commit_transaction_def rollback_def)

lemma commit_transaction_kept:
  "\<not> tx_failed db \<Longrightarrow>
   driveFile (commit_transaction db) = driveFile db
   \<and> drivePermission (commit_transaction db) = drivePermission db"
  by (simp add: commit_transaction_def)

lemma refuse_simps [simp]:
  "driveFile (refuse e db) = driveFile db"
  "drivePermission (refuse e db) = drivePermission db"
  "rejectsFile (refuse e db) = rejectsFile db"
  "rejectsPerm (refuse e db) = rejectsPerm db"
  "journal (refuse e db) = journal db"
  "file_ids (refuse e db) = file_ids db"
  "tx_snapshot (refuse e db) = tx_snapshot db"
  "findUnique_file (refuse e db) i = findUnique_file db i"
  "findUnique_perm (refuse e db) i = findUnique_perm db i"
  by (simp_all add: refuse_def file_ids_def findUnique_file_def findUnique_perm_def)

lemma refuse_failed: "tx_failed db \<Longrightarrow> tx_failed (refuse e db)"
  by (simp add: refuse_def)

lemma refuse_open:
  "tx_snapshot db \<noteq> None \<Longrightarrow> aborts e \<Longrightarrow> tx_failed (refuse e db)"
  by (simp add: refuse_def)

lemma tx_begin_fields [simp]:
  "totalFiles (tx_begin st) = totalFiles st"
  "processedFiles (tx_begin st) = processedFiles st"
  "totalPermissions (tx_begin st) = totalPermissions st"
  "processedPermissions (tx_begin st) = processedPermissions st"
  "errors (tx_begin st) = errors st"
  "broadcast (tx_begin st) = broadcast st"
  "prisma (tx_begin st) = begin_transaction (prisma st)"
  by (simp_all add: tx_begin_def)

lemma tx_commit_fields [simp]:
  "totalFiles (tx_commit st) = totalFiles st"
  "processedFiles (tx_commit st) = processedFiles st"
  "totalPermissions (tx_commit st) = totalPermissions st"
  "processedPermissions (tx_commit st) = processedPermissions st"
  "errors (tx_commit st) = errors st"
  "broadcast (tx_commit st) = broadcast st"
  "prisma (tx_commit st) = commit_transaction (prisma st)"
  by (simp_all add: tx_commit_def)

lemma broadcastProgress_fields [simp]:
  "totalFiles (broadcastProgress ev st) = totalFiles st"
  "processedFiles (broadcastProgress ev st) = processedFiles st"
  "totalPermissions (broadcastProgress ev st) = totalPermissions st"
  "processedPermissions (broadcastProgress ev st) = processedPermissions st"
  "errors (broadcastProgress ev st) = errors st"
  "broadcast (broadcastProgress ev st) = broadcast st @ [ev]"
  "prisma (broadcastProgress ev st) = prisma st"
  by (simp_all add: broadcastProgress_def)

lemma file_ids_moved:
  "fr_id r \<in> set (file_ids db) \<Longrightarrow>
   set (file_ids (db\<lparr>driveFile := filter (\<lambda>x. fr_id x \<noteq> fr_id r) (driveFile db) @ [r]\<rparr>))
     = set (file_ids db)"
  by (auto simp: file_ids_def)

lemma file_ids_append: "file_ids (db\<lparr>driveFile := driveFile db @ [r]\<rparr>) = file_ids db @ [fr_id r]"
  by (simp add: file_ids_def)

lemma write_file_result:
  assumes "write_file db r = Inr db'"
  shows "db' = db \<and> fr_id r \<in> set (file_ids db) \<or>
        db' = record_entry (FileCreated (fr_id r)) (db\<lparr>driveFile := driveFile db @ [r]\<rparr>)
         \<and> fr_id r \<notin> set (file_ids db) \<or>
        db' = record_entry (FileUpdated (fr_id r))
           (db\<lparr>driveFile := filter (\<lambda>x. fr_id x \<noteq> fr_id r) (driveFile db) @ [r]\<rparr>)
         \<and> fr_id r \<in> set (file_ids db)"
  using assms by (auto simp: write_file_cases file_ids_member split: if_splits)

lemma write_file_preserves:
  assumes "write_file db r = Inr db'"
  shows "drivePermission db' = drivePermission db" "rejectsFile db' = rejectsFile db"
    "rejectsPerm db' = rejectsPerm db" "set (file_ids db') = insert (fr_id r) (set (file_ids db))"
    "tx_snapshot db' = tx_snapshot db" "tx_failed db' = tx_failed db"
proof -
  note c = write_file_result [OF assms]
  show "drivePermission db' = drivePermission db" using c by auto
  show "rejectsFile db' = rejectsFile db" using c by auto
  show "rejectsPerm db' = rejectsPerm db" using c by auto
  show "tx_snapshot db' = tx_snapshot db" using c by auto
  show "tx_failed db' = tx_failed db" using c by auto
  show "set (file_ids db') = insert (fr_id r) (set (file_ids db))"
    using c file_ids_moved [of r db] by (auto simp: file_ids_append)
qed

lemma write_file_fails: "write_file db r = Inl e \<Longrightarrow> rejectsFile db r \<and> e = Rejected"
  by (auto simp: write_file_cases split: if_splits)

lemma write_file_succeeds: "\<not> rejectsFile db r \<Longrightarrow> \<exists>db'. write_file db r = Inr db'"
  by (simp add: write_file_cases)

lemma process_file_failed:
  "tx_failed (prisma st) \<Longrightarrow> process_file fileData st = st\<lparr>errors := errors st + 1\<rparr>"
  by (simp add: process_file_def)

lemma process_file_failure:
  "\<not> tx_failed (prisma st) \<Longrightarrow> write_file (prisma st) (file_row_of fileData) = Inl e \<Longrightarrow>
   process_file fileData st = st\<lparr>errors := errors st + 1, prisma := refuse e (prisma st)\<rparr>"
  by (simp add: process_file_def)

lemma process_file_success:
  "\<not> tx_failed (prisma st) \<Longrightarrow> write_file (prisma st) (file_row_of fileData) = Inr db \<Longrightarrow>
   process_file fileData st =
     broadcastProgress (file_event (processedFiles st + 1) (totalFiles st))
       (st\<lparr>prisma := db, processedFiles := processedFiles st + 1\<rparr>)"
  by (simp add: process_file_def)

text \<open>Once the transaction has failed, every record left in the batch is an error and nothing else.\<close>

lemma fold_process_file_failed:
  "tx_failed (prisma st) \<Longrightarrow> fold process_file xs st = st\<lparr>errors := errors st + length xs\<rparr>"
proof (induction xs arbitrary: st)
  case Nil
  show ?case by simp
next
  case (Cons x xs)
  have "tx_failed (prisma (st\<lparr>errors := errors st + 1\<rparr>))" using Cons.prems by simp
  then have "fold process_file xs (st\<lparr>errors := errors st + 1\<rparr>) =
      st\<lparr>errors := errors st + 1\<rparr>\<lparr>errors := errors (st\<lparr>errors := errors st + 1\<rparr>) + length xs\<rparr>"
    by (rule Cons.IH)
  then show ?case using Cons.prems by (simp add: process_file_failed)
qed

subsection \<open>What the file phase leaves behind\<close>

lemma files_ok_refl: "files_ok [] st st"
  by (simp add: files_ok_def)

lemma files_ok_trans:
  assumes "files_ok xs st st1" "files_ok ys st1 st2"
  shows "files_ok (xs @ ys) st st2"
  using assms unfolding files_ok_def by auto

lemma write_file_other:
  assumes "write_file db r = Inr db'" "i \<noteq> fr_id r"
  shows "findUnique_file db' i = findUnique_file db i"
proof -
  have "find (\<lambda>x. fr_id x = i) (driveFile db @ [r]) = find (\<lambda>x. fr_id x = i) (driveFile db)"
    using assms(2) by (simp add: find_append split: option.splits)
  moreover have "find (\<lambda>x. fr_id x = i) (filter (\<lambda>x. fr_id x \<noteq> fr_id r) (driveFile db) @ [r]) =
      find (\<lambda>x. fr_id x = i) (driveFile db)"
    using assms(2) by (intro find_move_other)
  ultimately show ?thesis
    using write_file_result [OF assms(1)] by (auto simp: findUnique_file_def)
qed

lemma files_written_refl: "files_written [] st st"
  by (simp add: files_written_def)

lemma files_written_trans:
  assumes 1: "files_written xs st st1" and 2: "files_written ys st1 st2"
  shows "files_written (xs @ ys) st st2"
proof -
  have env: "rejectsFile (prisma st1) = rejectsFile (prisma st)"
    using 1 by (simp add: files_written_def)
  have guarded: "(\<forall>x\<in>set (xs @ ys). findUnique_file (prisma st2) (fd_id x) = Some (file_row_of x))
      \<and> (\<forall>i. i \<notin> fd_id ` set (xs @ ys) \<longrightarrow> findUnique_file (prisma st2) i = findUnique_file (prisma st) i)
      \<and> errors st2 = errors st"
    if g: "(\<forall>x\<in>set (xs @ ys). \<not> rejectsFile (prisma st) (file_row_of x))" "distinct (map fd_id (xs @ ys))"
  proof -
    have G1: "(\<forall>x\<in>set xs. findUnique_file (prisma st1) (fd_id x) = Some (file_row_of x))
        \<and> (\<forall>i. i \<notin> fd_id ` set xs \<longrightarrow> findUnique_file (prisma st1) i = findUnique_file (prisma st) i)
        \<and> errors st1 = errors st"
      using 1 g unfolding files_written_def by auto
    have G2: "(\<forall>x\<in>set ys. findUnique_file (prisma st2) (fd_id x) = Some (file_row_of x))
        \<and> (\<forall>i. i \<notin> fd_id ` set ys \<longrightarrow> findUnique_file (prisma st2) i = findUnique_file (prisma st1) i)
        \<and> errors st2 = errors st1"
      using 2 g env unfolding files_written_def by auto
    have disj: "fd_id ` set xs \<inter> fd_id ` set ys = {}" using g(2) by auto
    have a: "findUnique_file (prisma st2) (fd_id x) = Some (file_row_of x)" if "x \<in> set xs" for x
    proof -
      have "fd_id x \<notin> fd_id ` set ys" using that disj by auto
      then have "findUnique_file (prisma st2) (fd_id x) = findUnique_file (prisma st1) (fd_id x)"
        using G2 by blast
      then show ?thesis using G1 that by simp
    qed
    have b: "findUnique_file (prisma st2) i = findUnique_file (prisma st) i"
      if "i \<notin> fd_id ` set (xs @ ys)" for i
      using that G1 G2 by (simp add: image_Un)
    show ?thesis using a b G1 G2 by auto
  qed
  show ?thesis
    unfolding files_written_def using 1 2 guarded by (simp add: files_written_def)
qed

lemma batch_ok_refl: "batch_ok [] st st"
  by (simp add: batch_ok_def files_ok_refl files_written_refl)

lemma batch_ok_trans:
  assumes 1: "batch_ok xs st st1" and 2: "batch_ok ys st1 st2"
  shows "batch_ok (xs @ ys) st st2"
proof -
  have ok: "files_ok (xs @ ys) st st2"
    using 1 2 by (auto simp: batch_ok_def intro: files_ok_trans)
  have env: "rejectsFile (prisma st1) = rejectsFile (prisma st)"
    using 1 by (simp add: batch_ok_def files_ok_def)
  have snap: "tx_snapshot (prisma st2) = tx_snapshot (prisma st)"
    using 1 2 by (simp add: batch_ok_def)
  have mono: "tx_failed (prisma st) \<longrightarrow> tx_failed (prisma st2)"
    using 1 2 by (simp add: batch_ok_def)
  have live: "\<not> tx_failed (prisma st2)"
    if "\<not> tx_failed (prisma st)" "\<forall>x\<in>set (xs @ ys). \<not> rejectsFile (prisma st) (file_row_of x)"
  proof -
    have "\<not> tx_failed (prisma st1)" using 1 that by (simp add: batch_ok_def)
    then show ?thesis using 2 that env by (simp add: batch_ok_def)
  qed
  have written: "files_written (xs @ ys) st st2" if n: "\<not> tx_failed (prisma st)"
  proof (cases "\<forall>x\<in>set (xs @ ys). \<not> rejectsFile (prisma st) (file_row_of x)")
    case True
    have w1: "files_written xs st st1" using 1 n by (simp add: batch_ok_def)
    have "\<not> tx_failed (prisma st1)" using 1 n True by (simp add: batch_ok_def)
    then have "files_written ys st1 st2" using 2 by (simp add: batch_ok_def)
    with w1 show ?thesis by (rule files_written_trans)
  next
    case False
    then show ?thesis using ok by (auto simp: files_written_def files_ok_def)
  qed
  show ?thesis
    unfolding batch_ok_def using ok snap mono live written by blast
qed

lemma process_file_ok: "batch_ok [f] st (process_file f st)"
proof (cases "tx_failed (prisma st)")
  case True
  then show ?thesis by (simp add: process_file_failed batch_ok_def files_ok_def)
next
  case live: False
  show ?thesis
  proof (cases "write_file (prisma st) (file_row_of f)")
    case (Inl e)
    then show ?thesis
      using write_file_fails [OF Inl] live
      by (simp add: process_file_failure batch_ok_def files_ok_def files_written_def)
  next
    case (Inr db)
    have id: "fr_id (file_row_of f) = fd_id f" by (simp add: file_row_of_def)
    have a: "files_ok [f] st (process_file f st)"
      using write_file_preserves [OF Inr] live
      by (auto simp: process_file_success [OF live Inr] files_ok_def id)
    have b: "files_written [f] st (process_file f st)"
      using write_file_preserves [OF Inr] write_file_lookup [OF Inr] write_file_other [OF Inr]
      by (simp add: process_file_success [OF live Inr] files_written_def id)
    show ?thesis
      using a b write_file_preserves(5,6) [OF Inr] live
      by (simp add: batch_ok_def process_file_success [OF live Inr])
  qed
qed

lemma fold_process_file_ok: "batch_ok xs st (fold process_file xs st)"
proof (induction xs arbitrary: st)
  case Nil
  show ?case by (simp add: batch_ok_refl)
next
  case (Cons f xs)
  have "batch_ok ([f] @ xs) st (fold process_file xs (process_file f st))"
    using process_file_ok Cons.IH by (rule batch_ok_trans)
  then show ?case by simp
qed

text \<open>
  One batch: its transaction is committed with what the records wrote, or, when a write
  was refused, rolled back to the tables the batch began with.
\<close>

lemma process_batch_tables:
  "driveFile (prisma (process_batch b st)) =
     (if tx_failed (prisma (fold process_file b (tx_begin st))) then driveFile (prisma st)
      else driveFile (prisma (fold process_file b (tx_begin st))))
   \<and> drivePermission (prisma (process_batch b st)) = drivePermission (prisma st)"
proof -
  let ?s1 = "fold process_file b (tx_begin st)"
  have ok: "batch_ok b (tx_begin st) ?s1" by (rule fold_process_file_ok)
  then have snap: "tx_snapshot (prisma ?s1) = Some (driveFile (prisma st), drivePermission (prisma st))"
    by (simp add: batch_ok_def)
  have perms: "drivePermission (prisma ?s1) = drivePermission (prisma st)"
    using ok by (simp add: batch_ok_def files_ok_def)
  show ?thesis
    using commit_transaction_tables [OF snap] perms by (simp add: process_batch_def)
qed

lemma process_batch_ok: "files_ok batch st (process_batch batch st)"
proof -
  let ?s1 = "fold process_file batch (tx_begin st)"
  have "batch_ok batch (tx_begin st) ?s1" by (rule fold_process_file_ok)
  then have ok: "files_ok batch (tx_begin st) ?s1" by (simp add: batch_ok_def)
  have ids: "set (file_ids (prisma st)) \<subseteq> set (file_ids (prisma (process_batch batch st)))"
    using ok process_batch_tables [of batch st] by (auto simp: files_ok_def file_ids_def)
  show ?thesis
    using ok ids process_batch_tables [of batch st]
    by (simp add: files_ok_def) (simp add: process_batch_def)
qed

lemma process_batch_written: "files_written b st (process_batch b st)"
proof -
  let ?s1 = "fold process_file b (tx_begin st)"
  have ok: "batch_ok b (tx_begin st) ?s1" by (rule fold_process_file_ok)
  then have w: "files_written b (tx_begin st) ?s1" by (simp add: batch_ok_def)
  have live: "\<not> tx_failed (prisma ?s1)"
    if "\<forall>x\<in>set b. \<not> rejectsFile (prisma st) (file_row_of x)"
    using ok that by (simp add: batch_ok_def)
  have env: "rejectsFile (prisma (process_batch b st)) = rejectsFile (prisma st)"
    "rejectsPerm (prisma (process_batch b st)) = rejectsPerm (prisma st)"
    using ok by (simp_all add: process_batch_def batch_ok_def files_ok_def)
  have lookups: "findUnique_file (prisma (process_batch b st)) i = findUnique_file (prisma ?s1) i"
    if "\<forall>x\<in>set b. \<not> rejectsFile (prisma st) (file_row_of x)" for i
    using live [OF that] process_batch_tables [of b st] by (simp add: findUnique_file_def)
  show ?thesis
    unfolding files_written_def
    using env process_batch_tables [of b st] w lookups
    by (simp add: files_written_def) (simp add: process_batch_def)
qed

lemma fold_process_batch_ok: "files_ok (concat bs) st (fold process_batch bs st)"
proof (induction bs arbitrary: st)
  case Nil
  show ?case by (simp add: files_ok_refl)
next
  case (Cons b bs)
  have "files_ok (b @ concat bs) st (fold process_batch bs (process_batch b st))"
    using process_batch_ok Cons.IH by (rule files_ok_trans)
  then show ?case by simp
qed

lemma processFilesBatch_ok: "files_ok files st (processFilesBatch files st)"
  using fold_process_batch_ok [of "make_batches 0 files" st]
  by (simp add: processFilesBatch_def make_batches_concat)

lemma fold_process_batch_written: "files_written (concat bs) st (fold process_batch bs st)"
proof (induction bs arbitrary: st)
  case Nil
  show ?case by (simp add: files_written_refl)
next
  case (Cons b bs)
  have "files_written (b @ concat bs) st (fold process_batch bs (process_batch b st))"
    using process_batch_written Cons.IH by (rule files_written_trans)
  then show ?case by simp
qed

lemma processFilesBatch_written: "files_written xs st (processFilesBatch xs st)"
  using fold_process_batch_written [of "make_batches 0 xs" st]
  by (simp add: processFilesBatch_def make_batches_concat)

subsection \<open>The journal of the file phase\<close>

lemma write_file_journal:
  assumes "write_file db r = Inr db'"
  shows "\<exists>W. journal db' = journal db @ W \<and> list_all is_write W \<and> length W \<le> 1"
proof -
  note c = write_file_result [OF assms]
  then consider "db' = db"
    | "journal db' = journal db @ [FileCreated (fr_id r)]"
    | "journal db' = journal db @ [FileUpdated (fr_id r)]"
    by auto
  then show ?thesis by cases auto
qed

lemma process_file_journal:
  "\<exists>W. journal (prisma (process_file f st)) = journal (prisma st) @ W \<and> list_all is_write W"
proof (cases "tx_failed (prisma st)")
  case True
  then show ?thesis by (simp add: process_file_failed)
next
  case live: False
  show ?thesis
  proof (cases "write_file (prisma st) (file_row_of f)")
    case (Inl e)
    then show ?thesis using live by (simp add: process_file_failure)
  next
    case (Inr db)
    then show ?thesis
      using write_file_journal [OF Inr] live by (auto simp: process_file_success)
  qed
qed

lemma fold_process_file_journal:
  "\<exists>W. journal (prisma (fold process_file xs st)) = journal (prisma st) @ W \<and> list_all is_write W"
proof (induction xs arbitrary: st)
  case Nil
  show ?case by simp
next
  case (Cons f xs)
  obtain W1 where 1: "journal (prisma (process_file f st)) = journal (prisma st) @ W1"
      "list_all is_write W1"
    using process_file_journal by blast
  obtain W2 where 2: "journal (prisma (fold process_file xs (process_file f st))) =
      journal (prisma (process_file f st)) @ W2" "list_all is_write W2"
    using Cons.IH by blast
  have "journal (prisma (fold process_file (f # xs) st)) = journal (prisma st) @ (W1 @ W2)"
    using 1 2 by simp
  moreover have "list_all is_write (W1 @ W2)" using 1 2 by simp
  ultimately show ?case by blast
qed

lemma process_batch_journal:
  "\<exists>W. journal (prisma (process_batch b st)) = journal (prisma st) @ TxBegin # W @ [TxCommit]
       \<and> list_all is_write W"
proof -
  obtain W where "journal (prisma (fold process_file b (tx_begin st))) =
      journal (prisma (tx_begin st)) @ W" "list_all is_write W"
    using fold_process_file_journal by blast
  then show ?thesis by (auto simp: process_batch_def)
qed

lemma fold_process_batch_journal:
  "\<exists>Ws. length Ws = length bs \<and> (\<forall>W\<in>set Ws. list_all is_write W) \<and>
        journal (prisma (fold process_batch bs st)) =
          journal (prisma st) @ concat (map (\<lambda>W. TxBegin # W @ [TxCommit]) Ws)"
proof (induction bs arbitrary: st)
  case Nil
  show ?case by simp
next
  case (Cons b bs)
  obtain W where 1: "journal (prisma (process_batch b st)) =
      journal (prisma st) @ TxBegin # W @ [TxCommit]" "list_all is_write W"
    using process_batch_journal by blast
  obtain Ws where 2: "length Ws = length bs" "\<forall>W\<in>set Ws. list_all is_write W"
      "journal (prisma (fold process_batch bs (process_batch b st))) =
         journal (prisma (process_batch b st)) @ concat (map (\<lambda>W. TxBegin # W @ [TxCommit]) Ws)"
    using Cons.IH by blast
  have "length (W # Ws) = length (b # bs)" using 2 by simp
  moreover have "\<forall>V\<in>set (W # Ws). list_all is_write V" using 1 2 by simp
  moreover have "journal (prisma (fold process_batch (b # bs) st)) =
      journal (prisma st) @ concat (map (\<lambda>W. TxBegin # W @ [TxCommit]) (W # Ws))"
    using 1 2 by simp
  ultimately show ?case by blast
qed

text \<open>
  \<^verbatim>\<open>processFilesBatch\<close> cuts the files, in the order given, into consecutive batches: the
  \<open>k\<close>-th batch is the ten files from position \<open>10 * k\<close> on (fewer in the last batch), no
  batch is empty and none holds more than ten. Each batch runs in one transaction: the
  journal of the phase is one \<open>TxBegin\<close> \<dots> \<open>TxCommit\<close> bracket for each batch, with
  nothing but that batch's writes inside. Every record is either processed or counted as
  an error.
\<close>

lemma bounded_batches:
  "concat (make_batches 0 files) = files
   \<and> (\<forall>k < length (make_batches 0 files).
         make_batches 0 files ! k = take 10 (drop (10 * k) files))
   \<and> (\<forall>b \<in> set (make_batches 0 files). 0 < length b \<and> length b \<le> 10)
   \<and> (\<exists>Ws. length Ws = length (make_batches 0 files)
         \<and> (\<forall>W\<in>set Ws. list_all is_write W)
         \<and> journal (prisma (processFilesBatch files st)) =
             journal (prisma st) @ concat (map (\<lambda>W. TxBegin # W @ [TxCommit]) Ws))
   \<and> processedFiles (processFilesBatch files st) + errors (processFilesBatch files st) =
       processedFiles st + errors st + length files"
proof -
  note ok = processFilesBatch_ok [of files st, unfolded files_ok_def]
  have 1: "concat (make_batches 0 files) = files" by (simp add: make_batches_concat)
  have 2: "\<forall>k < length (make_batches 0 files).
         make_batches 0 files ! k = take 10 (drop (10 * k) files)"
    using make_batches_nth [of _ 0 files] by (simp add: batchSize_def)
  have 3: "\<forall>b \<in> set (make_batches 0 files). 0 < length b \<and> length b \<le> 10"
    using make_batches_sizes [of _ 0 files] by (simp add: batchSize_def)
  have 5: "\<exists>Ws. length Ws = length (make_batches 0 files)
         \<and> (\<forall>W\<in>set Ws. list_all is_write W)
         \<and> journal (prisma (processFilesBatch files st)) =
             journal (prisma st) @ concat (map (\<lambda>W. TxBegin # W @ [TxCommit]) Ws)"
    unfolding processFilesBatch_def by (rule fold_process_batch_journal)
  have 6: "processedFiles (processFilesBatch files st) + errors (processFilesBatch files st) =
       processedFiles st + errors st + length files"
    using ok by simp
  from 1 2 3 5 6 show ?thesis by - (intro conjI; assumption)
qed

text \<open>
  A record the database refuses fails the transaction of its batch: the records after it
  in the batch are errors too, and the commit puts the file table back as the batch
  found it.
\<close>

lemma refused_record_fails_batch:
  assumes "\<not> tx_failed (prisma st)" "tx_snapshot (prisma st) \<noteq> None"
    and "write_file (prisma st) (file_row_of f) = Inl e"
  shows "fold process_file (f # rest) st =
     st\<lparr>errors := errors st + 1 + length rest, prisma := refuse e (prisma st)\<rparr>"
    and "tx_failed (refuse e (prisma st))"
proof -
  have e: "e = Rejected" using write_file_fails [OF assms(3)] by simp
  show f: "tx_failed (refuse e (prisma st))"
    using assms(2) e by (intro refuse_open) simp_all
  let ?s = "st\<lparr>errors := errors st + 1, prisma := refuse e (prisma st)\<rparr>"
  have "tx_failed (prisma ?s)" using f by simp
  then have "fold process_file rest ?s = ?s\<lparr>errors := errors ?s + length rest\<rparr>"
    by (rule fold_process_file_failed)
  then show "fold process_file (f # rest) st =
     st\<lparr>errors := errors st + 1 + length rest, prisma := refuse e (prisma st)\<rparr>"
    using assms(1,3) by (simp add: process_file_failure)
qed

lemma failed_batch_rolled_back:
  "tx_failed (prisma (fold process_file b (tx_begin st))) \<Longrightarrow>
   driveFile (prisma (process_batch b st)) = driveFile (prisma st)"
  using process_batch_tables [of b st] by simp

text \<open>
  Claim C8. Twelve files go to a store whose size column holds 32-bit integers; the
  seventh is larger than that. The files are cut into a batch of ten and a batch of two,
  each in one transaction. The refused insert of the seventh file fails the transaction
  of the first batch: the three records after it are errors as well, and the six before
  it, counted as processed, are rolled back. The run ends with eight files counted as
  processed, four errors, and only the two files of the second batch in the table.
\<close>

theorem refused_record_loses_its_batch:
  "map length (make_batches 0 twelve_files) = [10, 2]
   \<and> write_file int4_db (file_row_of big_file) = Inl Rejected
   \<and> length (filter (\<lambda>f. rejectsFile int4_db (file_row_of f)) twelve_files) = 1
   \<and> processedFiles (processFilesBatch twelve_files (new_service int4_db)) = 8
   \<and> errors (processFilesBatch twelve_files (new_service int4_db)) = 4
   \<and> file_ids (prisma (processFilesBatch twelve_files (new_service int4_db))) = [''f11'', ''f12'']
   \<and> journal (prisma (processFilesBatch twelve_files (new_service int4_db))) =
       [TxBegin, FileCreated ''f01'', FileCreated ''f02'', FileCreated ''f03'',
        FileCreated ''f04'', FileCreated ''f05'', FileCreated ''f06'', TxCommit,
        TxBegin, FileCreated ''f11'', FileCreated ''f12'', TxCommit]"
proof -
  have 1: "map length (make_batches 0 twelve_files) = [10, 2]" by code_simp
  have 2: "write_file int4_db (file_row_of big_file) = Inl Rejected"
    by (simp add: write_file_cases findUnique_file_def int4_db_def empty_db_def big_file_def
          data_A_def file_row_of_def)
  have 3: "length (filter (\<lambda>f. rejectsFile int4_db (file_row_of f)) twelve_files) = 1"
    by code_simp
  have 4: "processedFiles (processFilesBatch twelve_files (new_service int4_db)) = 8"
    by code_simp
  have 5: "errors (processFilesBatch twelve_files (new_service int4_db)) = 4"
    by code_simp
  have 6: "file_ids (prisma (processFilesBatch twelve_files (new_service int4_db))) =
      [''f11'', ''f12'']"
    by code_simp
  have 7: "journal (prisma (processFilesBatch twelve_files (new_service int4_db))) =
       [TxBegin, FileCreated ''f01'', FileCreated ''f02'', FileCreated ''f03'',
        FileCreated ''f04'', FileCreated ''f05'', FileCreated ''f06'', TxCommit,
        TxBegin, FileCreated ''f11'', FileCreated ''f12'', TxCommit]"
    by code_simp
  from 1 2 3 4 5 6 7 show ?thesis by - (intro conjI; assumption)
qed

section \<open>The one-shot endpoint\<close>

subsection \<open>The one-shot permission sync\<close>

lemma perms_ok_refl: "perms_ok [] s s"
  by (simp add: perms_ok_def)

lemma perm_entries_append: "perm_entries (xs @ ys) = perm_entries xs \<union> perm_entries ys"
  by (auto simp: perm_entries_def)

lemma perms_ok_trans:
  assumes "perms_ok xs s s1" "perms_ok ys s1 s2"
  shows "perms_ok (xs @ ys) s s2"
proof -
  obtain W1 where 1: "journal (snd s1) = journal (snd s) @ W1" "set W1 \<subseteq> perm_entries xs"
    using assms(1) by (auto simp: perms_ok_def)
  obtain W2 where 2: "journal (snd s2) = journal (snd s1) @ W2" "set W2 \<subseteq> perm_entries ys"
    using assms(2) by (auto simp: perms_ok_def)
  have "journal (snd s2) = journal (snd s) @ (W1 @ W2) \<and> set (W1 @ W2) \<subseteq> perm_entries (xs @ ys)"
    using 1 2 by (auto simp: perm_entries_append)
  then have "\<exists>W. journal (snd s2) = journal (snd s) @ W \<and> set W \<subseteq> perm_entries (xs @ ys)"
    by blast
  moreover have "set (drivePermission (snd s2)) \<subseteq>
      set (drivePermission (snd s)) \<union> oneshot_perm_row ` set (xs @ ys)"
    using assms by (auto simp: perms_ok_def)
  ultimately show ?thesis using assms by (simp add: perms_ok_def)
qed

lemma create_perm_result:
  "create_perm db r = Inr db' \<Longrightarrow>
   db' = record_entry (PermCreated (pr_id r)) (db\<lparr>drivePermission := drivePermission db @ [r]\<rparr>)"
  by (auto simp: create_perm_def split: if_splits)

lemma update_perm_result:
  "update_perm db r = Inr db' \<Longrightarrow>
   db' = record_entry (PermUpdated (pr_id r))
          (db\<lparr>drivePermission := map (\<lambda>x. if pr_id x = pr_id r then r else x) (drivePermission db)\<rparr>)"
  by (auto simp: update_perm_def split: if_splits)

lemma set_replace_subset: "set (map (\<lambda>x. if P x then r else x) xs) \<subseteq> insert r (set xs)"
  by auto

lemma sync_perm_step_ok: "perms_ok [p] s (sync_perm_step p s)"
proof -
  obtain c db where s: "s = (c, db)" by (cases s)
  let ?r = "oneshot_perm_row p"
  have id: "pr_id ?r = pd_id p" by (simp add: oneshot_perm_row_def)
  show ?thesis
  proof (cases "tx_failed db")
    case True
    then show ?thesis by (auto simp: s sync_perm_step_def perms_ok_def)
  next
    case live: False
    show ?thesis
    proof (cases "decide_perm db ?r")
      case Skip
      then show ?thesis using live by (auto simp: s sync_perm_step_def perms_ok_def)
    next
      case Update
      show ?thesis
      proof (cases "update_perm db ?r")
        case (Inl e)
        then show ?thesis using Update live by (auto simp: s sync_perm_step_def perms_ok_def)
      next
        case (Inr db')
        note r = update_perm_result [OF Inr]
        have "set (drivePermission db') \<subseteq> insert ?r (set (drivePermission db))"
          by (subst r) (use set_replace_subset in simp)
        moreover have "journal db' = journal db @ [PermUpdated (pd_id p)]"
            "driveFile db' = driveFile db" "tx_snapshot db' = tx_snapshot db"
          by (simp_all add: r id)
        ultimately show ?thesis
          using Update Inr live by (auto simp: s sync_perm_step_def perms_ok_def perm_entries_def)
      qed
    next
      case Create
      show ?thesis
      proof (cases "create_perm db ?r")
        case (Inl e)
        then show ?thesis using Create live by (auto simp: s sync_perm_step_def perms_ok_def)
      next
        case (Inr db')
        note r = create_perm_result [OF Inr]
        have "set (drivePermission db') \<subseteq> insert ?r (set (drivePermission db))"
          by (subst r) auto
        moreover have "journal db' = journal db @ [PermCreated (pd_id p)]"
            "driveFile db' = driveFile db" "tx_snapshot db' = tx_snapshot db"
          by (simp_all add: r id)
        ultimately show ?thesis
          using Create Inr live by (auto simp: s sync_perm_step_def perms_ok_def perm_entries_def)
      qed
    qed
  qed
qed

lemma fold_sync_perm_step_ok: "perms_ok ps s (fold sync_perm_step ps s)"
proof (induction ps arbitrary: s)
  case Nil
  show ?case by (simp add: perms_ok_refl)
next
  case (Cons p ps)
  have "perms_ok ([p] @ ps) s (fold sync_perm_step ps (sync_perm_step p s))"
    using sync_perm_step_ok Cons.IH by (rule perms_ok_trans)
  then show ?case by simp
qed

text \<open>
  Claim C10 (write-time referential filtering in the one-shot sync).
  \<^verbatim>\<open>syncDrivePermissions\<close> works on the permissions whose \<open>fileId\<close> is the id of a fetched
  file and on no other: its result is the one it gives for the filtered list, every row
  of the permission table afterwards is a row that was there before or the row of such a
  permission, and its one transaction writes only their ids. The \<open>total\<close> it returns is
  the number of those permissions, and \<open>cleaned\<close> is 0, also in the report of a \<^verbatim>\<open>POST\<close>
  whose cleanup deleted orphaned permissions.
\<close>

theorem write_time_referential_filtering:
  "ps_total (fst (syncDrivePermissions permissions files db)) =
     length (filter (\<lambda>p. pd_fileId p \<in> fd_id ` set files) permissions)
   \<and> ps_cleaned (fst (syncDrivePermissions permissions files db)) = 0
   \<and> syncDrivePermissions permissions files db =
       syncDrivePermissions (filter (\<lambda>p. pd_fileId p \<in> fd_id ` set files) permissions) files db
   \<and> set (drivePermission (snd (syncDrivePermissions permissions files db))) \<subseteq>
       set (drivePermission db) \<union>
       oneshot_perm_row ` {p \<in> set permissions. pd_fileId p \<in> fd_id ` set files}
   \<and> (\<exists>W. journal (snd (syncDrivePermissions permissions files db)) =
             journal db @ TxBegin # W @ [TxCommit]
          \<and> set W \<subseteq> perm_entries (filter (\<lambda>p. pd_fileId p \<in> fd_id ` set files) permissions))
   \<and> (\<forall>report db'. POST response listing db = (Synced report, db') \<longrightarrow>
         rp_permissions_cleaned report = 0)"
proof -
  let ?valid = "filter (\<lambda>p. pd_fileId p \<in> fd_id ` set files) permissions"
  let ?s = "fold sync_perm_step ?valid (no_counts, begin_transaction db)"
  have run: "syncDrivePermissions permissions files db =
      (\<lparr>ps_counts = fst ?s, ps_cleaned = 0, ps_total = length ?valid\<rparr>,
       commit_transaction (snd ?s))"
    by (simp add: syncDrivePermissions_def split: prod.splits)
  have ok: "perms_ok ?valid (no_counts, begin_transaction db) ?s"
    by (rule fold_sync_perm_step_ok)
  have snap: "tx_snapshot (snd ?s) = Some (driveFile db, drivePermission db)"
    using ok by (simp add: perms_ok_def)
  have "set (drivePermission (snd ?s)) \<subseteq>
      set (drivePermission db) \<union> oneshot_perm_row ` {p \<in> set permissions. pd_fileId p \<in> fd_id ` set files}"
    using ok by (auto simp: perms_ok_def)
  then have rows: "set (drivePermission (commit_transaction (snd ?s))) \<subseteq>
      set (drivePermission db) \<union> oneshot_perm_row ` {p \<in> set permissions. pd_fileId p \<in> fd_id ` set files}"
    using commit_transaction_tables [OF snap] by (simp split: if_splits)
  obtain W where W: "journal (snd ?s) = (journal db @ [TxBegin]) @ W" "set W \<subseteq> perm_entries ?valid"
    using ok by (auto simp: perms_ok_def)
  have j: "\<exists>W. journal (snd (syncDrivePermissions permissions files db)) =
             journal db @ TxBegin # W @ [TxCommit] \<and> set W \<subseteq> perm_entries ?valid"
    using W by (auto simp: run)
  have idem: "syncDrivePermissions permissions files db = syncDrivePermissions ?valid files db"
    by (simp add: syncDrivePermissions_def)
  have post: "\<forall>report db'. POST response listing db = (Synced report, db') \<longrightarrow>
         rp_permissions_cleaned report = 0"
    by (auto simp: POST_def syncDrivePermissions_def Let_def split: option.splits prod.splits)
  have tot: "ps_total (fst (syncDrivePermissions permissions files db)) = length ?valid"
    and cl: "ps_cleaned (fst (syncDrivePermissions permissions files db)) = 0"
    by (simp_all add: run)
  have rows': "set (drivePermission (snd (syncDrivePermissions permissions files db))) \<subseteq>
       set (drivePermission db) \<union>
       oneshot_perm_row ` {p \<in> set permissions. pd_fileId p \<in> fd_id ` set files}"
    using rows by (simp add: run)
  from tot cl idem rows' j post show ?thesis
    by - (intro conjI; assumption)
qed

theorem write_time_referential_filtering_witness:
  "length stray_permissions = 3
   \<and> ps_total (fst (syncDrivePermissions stray_permissions [data_A] db_A)) = 2
   \<and> ps_cleaned (fst (syncDrivePermissions stray_permissions [data_A] db_A)) = 0
   \<and> map pr_id (drivePermission (snd (syncDrivePermissions stray_permissions [data_A] db_A)))
       = [''g1'', ''g8'']
   \<and> journal (snd (syncDrivePermissions stray_permissions [data_A] db_A)) =
       [TxBegin, PermCreated ''g8'', TxCommit]
   \<and> PermsDeleted [''g9''] \<in> set (journal (snd (POST (Some listed_A) grants_of_A db_orphan)))
   \<and> (case fst (POST (Some listed_A) grants_of_A db_orphan) of
         Synced report \<Rightarrow> rp_permissions_cleaned report = 0 | Status500 \<Rightarrow> False)"
proof -
  have a: "length stray_permissions = 3" by code_simp
  have b: "ps_total (fst (syncDrivePermissions stray_permissions [data_A] db_A)) = 2" by code_simp
  have c: "map pr_id (drivePermission (snd (syncDrivePermissions stray_permissions [data_A] db_A)))
       = [''g1'', ''g8'']" by code_simp
  have d: "journal (snd (syncDrivePermissions stray_permissions [data_A] db_A)) =
       [TxBegin, PermCreated ''g8'', TxCommit]" by code_simp
  have e: "PermsDeleted [''g9''] \<in> set (journal (snd (POST (Some listed_A) grants_of_A db_orphan)))"
    by code_simp
  have f: "fst (POST (Some listed_A) grants_of_A db_orphan) \<noteq> Status500" by code_simp
  note t = write_time_referential_filtering [of stray_permissions "[data_A]" db_A
      "Some listed_A" grants_of_A]
  have g: "ps_cleaned (fst (syncDrivePermissions stray_permissions [data_A] db_A)) = 0"
    using t by blast
  obtain report db' where r: "POST (Some listed_A) grants_of_A db_orphan = (Synced report, db')"
    using f by (cases "POST (Some listed_A) grants_of_A db_orphan"; cases "fst (POST (Some listed_A) grants_of_A db_orphan)") auto
  have "rp_permissions_cleaned report = 0"
    using write_time_referential_filtering [of stray_permissions "[data_A]" db_orphan
      "Some listed_A" grants_of_A] r by blast
  then have h: "case fst (POST (Some listed_A) grants_of_A db_orphan) of
         Synced report \<Rightarrow> rp_permissions_cleaned report = 0 | Status500 \<Rightarrow> False"
    by (simp add: r)
  from a b g c d e h show ?thesis
    by - (intro conjI; assumption)
qed

section \<open>The start request takes no notice of running syncs\<close>

text \<open>
  Claim C4 (single-flight conflict), as the spec states it: a start request that arrives
  while a run for the same folder is running is answered with a conflict and starts no
  second run. The handler does not look at the runs in progress: with a run for folder
  \<open>F1\<close> running, a second request for \<open>F1\<close> is answered with status 200 and success,
  and two runs for \<open>F1\<close> are then in progress.
\<close>

theorem single_flight_counterexample:
  "handleStartSync True (Some ''F1'') [Some ''F1''] =
     (\<lparr>sr_status = 200, sr_success = True, sr_folderId = ''F1''\<rparr>, [Some ''F1'', Some ''F1''])"
  by (simp add: handleStartSync_def str_or_def)

text \<open>
  Claim C4, amended. The answer to a start request does not depend on the runs in
  progress. A request whose service can be built is answered with status 200 and
  success and starts one more run, whatever is running; the only other answer is status
  500, when building the service throws, and then no run is started.
\<close>

theorem start_request_always_accepted:
  "fst (handleStartSync credentials folderId running) =
     fst (handleStartSync credentials folderId running')
   \<and> (credentials \<longrightarrow>
        sr_status (fst (handleStartSync credentials folderId running)) = 200
        \<and> sr_success (fst (handleStartSync credentials folderId running))
        \<and> snd (handleStartSync credentials folderId running) = running @ [folderId])
   \<and> (\<not> credentials \<longrightarrow>
        sr_status (fst (handleStartSync credentials folderId running)) = 500
        \<and> \<not> sr_success (fst (handleStartSync credentials folderId running))
        \<and> snd (handleStartSync credentials folderId running) = running)"
  by (simp add: handleStartSync_def)

theorem start_request_always_accepted_witness:
  "fst (handleStartSync True None [None]) = fst (handleStartSync True None [])
   \<and> sr_status (fst (handleStartSync True None [None])) = 200
   \<and> sr_success (fst (handleStartSync True None [None]))
   \<and> snd (handleStartSync True None [None]) = [None, None]
   \<and> sr_status (fst (handleStartSync False None [None])) = 500
   \<and> \<not> sr_success (fst (handleStartSync False None [None]))
   \<and> snd (handleStartSync False None [None]) = [None]"
proof -
  note a = start_request_always_accepted [of True None "[None]" "[]"]
  note b = start_request_always_accepted [of False None "[None]" "[]"]
  have 1: "fst (handleStartSync True None [None]) = fst (handleStartSync True None [])"
    using a by blast
  have 2: "sr_status (fst (handleStartSync True None [None])) = 200"
    "sr_success (fst (handleStartSync True None [None]))"
    using a by blast+
  have 3: "snd (handleStartSync True None [None]) = [None] @ [None]"
    using a by blast
  have 4: "sr_status (fst (handleStartSync False None [None])) = 500"
    "\<not> sr_success (fst (handleStartSync False None [None]))"
    "snd (handleStartSync False None [None]) = [None]"
    using b by blast+
  from 1 2 3 4 show ?thesis by simp
qed

section \<open>Progress percentages\<close>

lemma percents_within_Nil: "lo \<le> hi \<Longrightarrow> percents_within lo hi []"
  by (simp add: percents_within_def)

lemma percents_within_single:
  "ev_percent e = Fin r \<Longrightarrow> lo \<le> r \<Longrightarrow> r \<le> hi \<Longrightarrow> percents_within lo hi [e]"
  unfolding percents_within_def by (intro conjI exI [of _ "[r]"]) simp_all

lemma percents_within_append:
  assumes "percents_within lo mid xs" "percents_within mid hi ys"
  shows "percents_within lo hi (xs @ ys)"
proof -
  obtain rs where rs: "map ev_percent xs = map Fin rs" "sorted rs" "\<forall>r\<in>set rs. lo \<le> r \<and> r \<le> mid"
    and lm: "lo \<le> mid"
    using assms(1) by (auto simp: percents_within_def)
  obtain qs where qs: "map ev_percent ys = map Fin qs" "sorted qs" "\<forall>r\<in>set qs. mid \<le> r \<and> r \<le> hi"
    and mh: "mid \<le> hi"
    using assms(2) by (auto simp: percents_within_def)
  have "map ev_percent (xs @ ys) = map Fin (rs @ qs)" using rs qs by simp
  moreover have "sorted (rs @ qs)"
    using rs qs by (fastforce simp: sorted_append)
  moreover have "\<forall>r\<in>set (rs @ qs). lo \<le> r \<and> r \<le> hi"
    using rs qs lm mh by fastforce
  ultimately show ?thesis using lm mh unfolding percents_within_def by (intro conjI exI [of _ "rs @ qs"]) simp_all
qed

lemma percents_within_weaken:
  "percents_within lo hi evs \<Longrightarrow> lo' \<le> lo \<Longrightarrow> hi \<le> hi' \<Longrightarrow> percents_within lo' hi' evs"
  unfolding percents_within_def by fastforce

lemma sorted_wrt_js_le_Fin: "sorted_wrt js_le (map Fin rs) = sorted rs"
  by (induction rs) auto

lemma percents_within_nondecreasing: "percents_within lo hi evs \<Longrightarrow> nondecreasing evs"
  by (auto simp: percents_within_def nondecreasing_def sorted_wrt_js_le_Fin)

lemma emits_refl: "lo \<le> hi \<Longrightarrow> emits lo hi st st"
  by (simp add: emits_def percents_within_Nil)

lemma emits_trans: "emits lo mid st st1 \<Longrightarrow> emits mid hi st1 st2 \<Longrightarrow> emits lo hi st st2"
  unfolding emits_def using percents_within_append by fastforce

lemma emits_weaken: "emits lo hi st st' \<Longrightarrow> lo' \<le> lo \<Longrightarrow> hi \<le> hi' \<Longrightarrow> emits lo' hi' st st'"
  unfolding emits_def using percents_within_weaken by blast

lemma emits_broadcastProgress:
  "ev_percent e = Fin r \<Longrightarrow> lo \<le> r \<Longrightarrow> r \<le> hi \<Longrightarrow> emits lo hi st (broadcastProgress e st)"
  unfolding emits_def by (auto simp: broadcastProgress_def intro: percents_within_single)

lemma emits_same_broadcast: "broadcast st' = broadcast st \<Longrightarrow> lo \<le> hi \<Longrightarrow> emits lo hi st st'"
  by (simp add: emits_def percents_within_Nil)

lemma count_percent_mono: "n \<le> m \<Longrightarrow> count_percent n \<le> count_percent m"
  by (simp add: count_percent_def min_le_iff_disj)

lemma count_percent_le: "count_percent n \<le> 5"
  by (simp add: count_percent_def)

lemma page_percent_mono: "a \<le> b \<Longrightarrow> page_percent n a \<le> page_percent n b"
  by (simp add: page_percent_def min_le_iff_disj divide_right_mono)

lemma page_percent_bounds: "0 \<le> page_percent n a" "page_percent n a \<le> 60"
  by (simp_all add: page_percent_def)

lemma file_percent_mono: "a \<le> b \<Longrightarrow> file_percent n a \<le> file_percent n b"
  by (simp add: file_percent_def min_le_iff_disj divide_right_mono)

lemma file_percent_bounds: "60 \<le> file_percent n a" "file_percent n a \<le> 95"
  by (simp_all add: file_percent_def)

lemma permission_percent_mono: "a \<le> b \<Longrightarrow> permission_percent n a \<le> permission_percent n b"
  by (simp add: permission_percent_def min_le_iff_disj divide_right_mono)

lemma permission_percent_bounds: "95 \<le> permission_percent n a" "permission_percent n a \<le> 100"
  by (simp_all add: permission_percent_def)

lemma count_event_percent: "ev_percent (count_event n) = Fin (count_percent n)"
  by (simp add: count_event_def count_percent_def)

lemma page_event_percent: "0 < n \<Longrightarrow> ev_percent (page_event l n) = Fin (page_percent n l)"
  by (simp add: page_event_def page_percent_def js_div_def)

lemma file_event_percent: "0 < n \<Longrightarrow> ev_percent (file_event p n) = Fin (file_percent n p)"
  by (simp add: file_event_def file_percent_def js_div_def)

lemma permission_event_percent:
  "0 < n \<Longrightarrow> ev_percent (permission_event i n) = Fin (permission_percent n i)"
  by (simp add: permission_event_def permission_percent_def js_div_def)

subsection \<open>Counting\<close>

lemma count_loop_emits:
  "emits (count_percent n) 5 st (snd (count_loop n pages st))"
proof (induction pages arbitrary: n st)
  case (LastPage files)
  show ?case
    by (simp add: emits_broadcastProgress [OF count_event_percent] count_percent_mono count_percent_le)
next
  case (NextPage files rest)
  have "emits (count_percent n) (count_percent (n + length files)) st
          (broadcastProgress (count_event (n + length files)) st)"
    by (rule emits_broadcastProgress [OF count_event_percent]) (simp_all add: count_percent_mono)
  then show ?case using NextPage.IH by (simp add: emits_trans)
next
  case PageFailure
  show ?case by (simp add: emits_refl count_percent_le)
qed

lemma count_loop_fields:
  "prisma (snd (count_loop n pages st)) = prisma st"
  "processedFiles (snd (count_loop n pages st)) = processedFiles st"
  "errors (snd (count_loop n pages st)) = errors st"
  "totalPermissions (snd (count_loop n pages st)) = totalPermissions st"
  "processedPermissions (snd (count_loop n pages st)) = processedPermissions st"
  by (induction pages arbitrary: n st) simp_all

lemma getTotalFileCount_snd:
  "snd (getTotalFileCount d st) = snd (count_loop 0 (count_listing d) st)"
  by (simp add: getTotalFileCount_def split: prod.splits option.splits)

lemma getTotalFileCount_emits: "emits 0 5 st (snd (getTotalFileCount d st))"
  using count_loop_emits [of 0 st "count_listing d"]
  by (simp add: getTotalFileCount_snd count_percent_def)

subsection \<open>Fetching\<close>

lemma fetch_loop_totalFiles: "totalFiles (snd (fetch_loop acc pages st)) = totalFiles st"
  by (induction pages arbitrary: acc st) simp_all

lemma fetch_loop_fields:
  "prisma (snd (fetch_loop acc pages st)) = prisma st"
  "processedFiles (snd (fetch_loop acc pages st)) = processedFiles st"
  "errors (snd (fetch_loop acc pages st)) = errors st"
  "totalPermissions (snd (fetch_loop acc pages st)) = totalPermissions st"
  "processedPermissions (snd (fetch_loop acc pages st)) = processedPermissions st"
  by (induction pages arbitrary: acc st) simp_all

lemma fetch_loop_emits:
  "0 < totalFiles st \<Longrightarrow>
   emits (page_percent (totalFiles st) (length acc)) 60 st (snd (fetch_loop acc pages st))"
proof (induction pages arbitrary: acc st)
  case (LastPage files)
  then show ?case
    by (simp add: emits_broadcastProgress [OF page_event_percent] page_percent_mono
          page_percent_bounds)
next
  case (NextPage files rest)
  let ?st = "broadcastProgress (page_event (length (acc @ files)) (totalFiles st)) st"
  have "emits (page_percent (totalFiles st) (length acc))
          (page_percent (totalFiles st) (length (acc @ files))) st ?st"
    using NextPage.prems
    by (intro emits_broadcastProgress [OF page_event_percent]) (simp_all add: page_percent_mono)
  moreover have "emits (page_percent (totalFiles ?st) (length (acc @ files))) 60 ?st
      (snd (fetch_loop (acc @ files) rest ?st))"
    using NextPage.prems by (intro NextPage.IH) simp
  ultimately show ?case by (simp add: emits_trans)
next
  case PageFailure
  show ?case by (simp add: emits_refl page_percent_bounds)
qed

subsection \<open>Persisting\<close>

lemma file_trace_same:
  "broadcast st' = broadcast st \<Longrightarrow> totalFiles st' = totalFiles st \<Longrightarrow>
   processedFiles st' = processedFiles st \<Longrightarrow> file_trace st st'"
  by (simp add: file_trace_def emits_same_broadcast)

lemma file_trace_trans: "file_trace st st1 \<Longrightarrow> file_trace st1 st2 \<Longrightarrow> file_trace st st2"
  unfolding file_trace_def using emits_trans by auto

lemma process_file_silent:
  "tx_failed (prisma st) \<or> (\<exists>e. write_file (prisma st) (file_row_of f) = Inl e) \<Longrightarrow>
   broadcast (process_file f st) = broadcast st \<and> totalFiles (process_file f st) = totalFiles st
   \<and> processedFiles (process_file f st) = processedFiles st"
  by (auto simp: process_file_def)

lemma process_file_trace: "0 < totalFiles st \<Longrightarrow> file_trace st (process_file f st)"
proof (cases "tx_failed (prisma st) \<or> (\<exists>e. write_file (prisma st) (file_row_of f) = Inl e)")
  case True
  then show ?thesis using process_file_silent [of st f] by (simp add: file_trace_same)
next
  case False
  then have live: "\<not> tx_failed (prisma st)" by simp
  from False obtain db where Inr: "write_file (prisma st) (file_row_of f) = Inr db"
    by (cases "write_file (prisma st) (file_row_of f)") auto
  assume n: "0 < totalFiles st"
  let ?st = "st\<lparr>prisma := db, processedFiles := processedFiles st + 1\<rparr>"
  have "emits (file_percent (totalFiles st) (processedFiles st))
          (file_percent (totalFiles st) (processedFiles st + 1)) ?st
          (broadcastProgress (file_event (processedFiles st + 1) (totalFiles st)) ?st)"
    using n by (intro emits_broadcastProgress [OF file_event_percent]) (simp_all add: file_percent_mono)
  then have "emits (file_percent (totalFiles st) (processedFiles st))
          (file_percent (totalFiles st) (processedFiles st + 1)) st
          (broadcastProgress (file_event (processedFiles st + 1) (totalFiles st)) ?st)"
    by (simp add: emits_def)
  then show ?thesis by (simp add: process_file_success [OF live Inr] file_trace_def)
qed

lemma fold_process_file_trace:
  "0 < totalFiles st \<Longrightarrow> file_trace st (fold process_file xs st)"
proof (induction xs arbitrary: st)
  case Nil
  show ?case by (simp add: file_trace_same)
next
  case (Cons f xs)
  have 1: "file_trace st (process_file f st)" using Cons.prems by (rule process_file_trace)
  then have "0 < totalFiles (process_file f st)" using Cons.prems by (simp add: file_trace_def)
  then have "file_trace (process_file f st) (fold process_file xs (process_file f st))"
    by (rule Cons.IH)
  then show ?case using 1 by (simp add: file_trace_trans)
qed

lemma process_batch_trace: "0 < totalFiles st \<Longrightarrow> file_trace st (process_batch b st)"
proof -
  assume n: "0 < totalFiles st"
  have 1: "file_trace st (tx_begin st)" by (simp add: file_trace_same)
  have 2: "file_trace (tx_begin st) (fold process_file b (tx_begin st))"
    using n by (intro fold_process_file_trace) simp
  have 3: "file_trace (fold process_file b (tx_begin st))
      (tx_commit (fold process_file b (tx_begin st)))"
    by (simp add: file_trace_same)
  show ?thesis
    unfolding process_batch_def using 1 2 3 by (blast intro: file_trace_trans)
qed

lemma fold_process_batch_trace:
  "0 < totalFiles st \<Longrightarrow> file_trace st (fold process_batch bs st)"
proof (induction bs arbitrary: st)
  case Nil
  show ?case by (simp add: file_trace_same)
next
  case (Cons b bs)
  have 1: "file_trace st (process_batch b st)" using Cons.prems by (rule process_batch_trace)
  then have "0 < totalFiles (process_batch b st)" using Cons.prems by (simp add: file_trace_def)
  then have "file_trace (process_batch b st) (fold process_batch bs (process_batch b st))"
    by (rule Cons.IH)
  then show ?case using 1 by (simp add: file_trace_trans)
qed

lemma processFilesBatch_emits:
  assumes "0 < totalFiles st"
  shows "emits 60 95 st (processFilesBatch files st)"
    and "totalFiles (processFilesBatch files st) = totalFiles st"
proof -
  have t: "file_trace st (processFilesBatch files st)"
    unfolding processFilesBatch_def using assms by (rule fold_process_batch_trace)
  then show "totalFiles (processFilesBatch files st) = totalFiles st"
    by (simp add: file_trace_def)
  show "emits 60 95 st (processFilesBatch files st)"
    using t unfolding file_trace_def
    by (auto intro: emits_weaken file_percent_bounds)
qed

subsection \<open>Permissions\<close>

lemma process_permission_broadcast:
  "broadcast (fst (process_permission fileId p s)) = broadcast (fst s)"
  by (cases s) (simp add: process_permission_def split: sum.splits)

lemma fold_process_permission_broadcast:
  "broadcast (fst (fold (process_permission fileId) ps s)) = broadcast (fst s)"
  by (induction ps arbitrary: s) (simp_all add: process_permission_broadcast)

lemma sync_file_permissions_None:
  "permissions_list d (snd file) = None \<Longrightarrow>
   sync_file_permissions d n file (st, ids) = (st\<lparr>errors := errors st + 1\<rparr>, ids)"
  by (simp add: sync_file_permissions_def)

lemma sync_file_permissions_Some:
  "permissions_list d (snd file) = Some permissions \<Longrightarrow>
   sync_file_permissions d n file (st, ids) =
     (broadcastProgress (permission_event (fst file) n)
        (tx_commit
           (fst (fold (process_permission (snd file)) permissions
                  (tx_begin
                     (st\<lparr>totalPermissions := totalPermissions st + length permissions\<rparr>),
                   ids)))),
      snd (fold (process_permission (snd file)) permissions
             (tx_begin
                (st\<lparr>totalPermissions := totalPermissions st + length permissions\<rparr>),
              ids)))"
  by (simp add: sync_file_permissions_def split: prod.splits)

lemma sync_file_permissions_emits:
  assumes "0 < n"
  shows "emits (permission_percent n (fst file)) (permission_percent n (Suc (fst file)))
           (fst s) (fst (sync_file_permissions d n file s))"
proof -
  obtain st ids where s: "s = (st, ids)" by (cases s)
  let ?lo = "permission_percent n (fst file)" and ?hi = "permission_percent n (Suc (fst file))"
  have le: "?lo \<le> ?hi" by (simp add: permission_percent_mono)
  show ?thesis
  proof (cases "permissions_list d (snd file)")
    case None
    then show ?thesis using le by (simp add: s sync_file_permissions_None emits_same_broadcast)
  next
    case (Some permissions)
    let ?s0 = "(tx_begin (st\<lparr>totalPermissions := totalPermissions st + length permissions\<rparr>), ids)"
    let ?s1 = "fold (process_permission (snd file)) permissions ?s0"
    have b: "broadcast (tx_commit (fst ?s1)) = broadcast st"
      using fold_process_permission_broadcast [of "snd file" permissions ?s0] by simp
    have "emits ?lo ?hi (tx_commit (fst ?s1))
        (broadcastProgress (permission_event (fst file) n) (tx_commit (fst ?s1)))"
      using assms le by (intro emits_broadcastProgress [OF permission_event_percent]) simp_all
    then have "emits ?lo ?hi st
        (broadcastProgress (permission_event (fst file) n) (tx_commit (fst ?s1)))"
      using b by (simp add: emits_def)
    then show ?thesis
      by (simp add: s sync_file_permissions_Some [OF Some])
  qed
qed

lemma fold_sync_file_permissions_emits:
  assumes "0 < n"
  shows "emits (permission_percent n k) (permission_percent n (k + length ids)) (fst s)
           (fst (fold (sync_file_permissions d n) (enumerate k ids) s))"
proof (induction ids arbitrary: k s)
  case Nil
  show ?case by (simp add: emits_refl)
next
  case (Cons i ids)
  have 1: "emits (permission_percent n k) (permission_percent n (Suc k)) (fst s)
      (fst (sync_file_permissions d n (k, i) s))"
    using sync_file_permissions_emits [OF assms, of "(k, i)" s d] by simp
  have 2: "emits (permission_percent n (Suc k)) (permission_percent n (Suc k + length ids))
      (fst (sync_file_permissions d n (k, i) s))
      (fst (fold (sync_file_permissions d n) (enumerate (Suc k) ids)
              (sync_file_permissions d n (k, i) s)))"
    by (rule Cons.IH)
  show ?case using emits_trans [OF 1 2] by simp
qed

lemma syncAllPermissions_emits: "emits 95 100 st (syncAllPermissions d st)"
proof (cases "file_ids (prisma st) = []")
  case True
  then show ?thesis by (simp add: syncAllPermissions_def emits_same_broadcast)
next
  case False
  let ?n = "length (file_ids (prisma st))"
  have n: "0 < ?n" using False by simp
  have "emits (permission_percent ?n 0) (permission_percent ?n (0 + ?n))
      (fst (st\<lparr>totalPermissions := 0\<rparr>, {}::string set))
      (fst (fold (sync_file_permissions d ?n) (enumerate 0 (file_ids (prisma st)))
              (st\<lparr>totalPermissions := 0\<rparr>, {})))"
    using fold_sync_file_permissions_emits [OF n, where k = 0 and ids = "file_ids (prisma st)"
        and s = "(st\<lparr>totalPermissions := 0\<rparr>, {})" and d = d] .
  then have "emits (permission_percent ?n 0) (permission_percent ?n ?n) st (syncAllPermissions d st)"
    by (simp add: syncAllPermissions_def Let_def emits_def)
  then show ?thesis
    by (rule emits_weaken) (simp_all add: permission_percent_bounds)
qed

lemma cleanupOrphanedData_broadcast: "broadcast (cleanupOrphanedData st) = broadcast st"
  by (simp add: cleanupOrphanedData_def Let_def)

subsection \<open>The whole run\<close>

lemma sorted_le_last: "sorted rs \<Longrightarrow> x \<in> set rs \<Longrightarrow> x \<le> last (rs::real list)"
  by (induction rs) (auto split: if_splits)

lemma sorted_hd_le: "sorted qs \<Longrightarrow> y \<in> set qs \<Longrightarrow> hd (qs::real list) \<le> y"
  by (cases qs) auto

lemma sorted_join:
  assumes "sorted rs" "sorted qs" "rs \<noteq> []" "qs \<noteq> []" "last rs \<le> hd (qs::real list)"
  shows "sorted (rs @ qs)"
proof -
  have "x \<le> y" if "x \<in> set rs" "y \<in> set qs" for x y
    using sorted_le_last [OF assms(1) that(1)] sorted_hd_le [OF assms(2) that(2)] assms(5)
    by linarith
  then show ?thesis using assms(1,2) by (simp add: sorted_append)
qed

lemma percents_within_join:
  assumes "percents_within a b xs" "percents_within c e ys" "xs \<noteq> []" "ys \<noteq> []"
    "js_le (ev_percent (last xs)) (ev_percent (hd ys))"
  shows "nondecreasing (xs @ ys)"
proof -
  obtain rs where rs: "map ev_percent xs = map Fin rs" "sorted rs"
    using assms(1) by (auto simp: percents_within_def)
  obtain qs where qs: "map ev_percent ys = map Fin qs" "sorted qs"
    using assms(2) by (auto simp: percents_within_def)
  have ne: "rs \<noteq> []" "qs \<noteq> []" using rs qs assms(3,4) by auto
  have "ev_percent (last xs) = last (map ev_percent xs)" using assms(3) by (simp add: last_map)
  then have l: "ev_percent (last xs) = Fin (last rs)" using rs ne by (simp add: last_map)
  have "ev_percent (hd ys) = hd (map ev_percent ys)" using assms(4) by (simp add: hd_map)
  then have h: "ev_percent (hd ys) = Fin (hd qs)" using qs ne by (simp add: hd_map)
  have "last rs \<le> hd qs" using assms(5) l h by simp
  then have "sorted (rs @ qs)" using rs qs ne by (intro sorted_join)
  moreover have "map ev_percent (xs @ ys) = map Fin (rs @ qs)" using rs qs by simp
  ultimately show ?thesis by (simp add: nondecreasing_def sorted_wrt_js_le_Fin del: map_append)
qed

lemma startSync_unfold:
  "startSync d st =
     (case fst (fetched d st) of
        None \<Rightarrow> (SyncError, snd (fetched d st))
      | Some allFiles \<Rightarrow>
          (SyncComplete (getSyncStats (cleanupOrphanedData (syncAllPermissions d
              (processFilesBatch (map to_drive_file allFiles) (snd (fetched d st)))))),
           cleanupOrphanedData (syncAllPermissions d
              (processFilesBatch (map to_drive_file allFiles) (snd (fetched d st))))))"
  by (simp add: startSync_def syncDriveFilesWithPagination_def fetched_def counted_def Let_def
        split: prod.splits option.splits)

lemma counted_fields [simp]:
  "broadcast (counted d st) = broadcast (snd (getTotalFileCount d st))"
  "totalFiles (counted d st) = fst (getTotalFileCount d st)"
  by (simp_all add: counted_def)

lemma fetched_emits:
  assumes "0 < fst (getTotalFileCount d st)"
  shows "emits 0 60 (counted d st) (snd (fetched d st))"
proof -
  have "emits (page_percent (totalFiles (counted d st)) (length ([]::schema_file list))) 60
      (counted d st) (snd (fetch_loop [] (files_listing d) (counted d st)))"
    using assms by (intro fetch_loop_emits) simp
  then show ?thesis by (simp add: fetched_def page_percent_def)
qed

lemma after_fetch_emits:
  assumes "0 < fst (getTotalFileCount d st)"
  shows "emits 60 100 (snd (fetched d st)) (snd (startSync d st))"
proof (cases "fst (fetched d st)")
  case None
  then show ?thesis by (simp add: startSync_unfold emits_refl)
next
  case (Some allFiles)
  let ?st2 = "snd (fetched d st)"
  let ?st3 = "processFilesBatch (map to_drive_file allFiles) ?st2"
  have n: "0 < totalFiles ?st2"
    using assms by (simp add: fetched_def fetch_loop_totalFiles)
  have 1: "emits 60 95 ?st2 ?st3" using n by (rule processFilesBatch_emits)
  have 2: "emits 95 100 ?st3 (syncAllPermissions d ?st3)" by (rule syncAllPermissions_emits)
  have "emits 60 100 ?st2 (syncAllPermissions d ?st3)" using 1 2 by (rule emits_trans)
  then have "emits 60 100 ?st2 (cleanupOrphanedData (syncAllPermissions d ?st3))"
    by (simp add: emits_def cleanupOrphanedData_broadcast)
  then show ?thesis by (simp add: startSync_unfold Some)
qed

lemma count_loop_last_event:
  "fst (count_loop n pages st) = Some t \<Longrightarrow>
   \<exists>pre. broadcast (snd (count_loop n pages st)) = pre @ [count_event t]"
proof (induction pages arbitrary: n st)
  case (LastPage files)
  then show ?case by (auto simp: broadcastProgress_def)
next
  case (NextPage files rest)
  then show ?case by simp
next
  case PageFailure
  then show ?case by simp
qed

lemma fetch_loop_extends:
  "\<exists>post. broadcast (snd (fetch_loop acc pages st)) = broadcast st @ post"
proof (induction pages arbitrary: acc st)
  case (NextPage files rest)
  obtain post where "broadcast (snd (fetch_loop (acc @ files) rest
        (broadcastProgress (page_event (length (acc @ files)) (totalFiles st)) st))) =
      broadcast (broadcastProgress (page_event (length (acc @ files)) (totalFiles st)) st) @ post"
    using NextPage.IH by blast
  then show ?case by simp
qed simp_all

lemma fetch_loop_first_event:
  "pages \<noteq> PageFailure \<Longrightarrow>
   \<exists>post. broadcast (snd (fetch_loop acc pages st)) =
      broadcast st @ page_event (length (acc @ first_page pages)) (totalFiles st) # post"
proof (cases pages)
  case (NextPage files rest)
  obtain post where "broadcast (snd (fetch_loop (acc @ files) rest
        (broadcastProgress (page_event (length (acc @ files)) (totalFiles st)) st))) =
      broadcast (broadcastProgress (page_event (length (acc @ files)) (totalFiles st)) st) @ post"
    using fetch_loop_extends by blast
  then show ?thesis using NextPage by simp
qed simp_all

lemma length_hundred_files: "length (hundred_files k) = 100"
  by (simp add: hundred_files_def)

lemma count_pages_from:
  "fst (count_loop n (pages_from k m) st) = Some (n + 100 * Suc m)"
  by (induction m arbitrary: n k st) (simp_all add: length_hundred_files)

lemma getTotalFileCount_fst:
  "fst (getTotalFileCount d st) =
     (case fst (count_loop 0 (count_listing d) st) of None \<Rightarrow> 0 | Some n \<Rightarrow> n)"
  by (cases "count_loop 0 (count_listing d) st")
     (auto simp: getTotalFileCount_def split: option.splits)

text \<open>
  Claim C3 (monotonic progress), as the spec states it: within a run no event carries a
  lower percentage than an earlier one, also from the counting phase to the fetching
  phase. On a drive of 2000 files the counting phase ends at 5 percent and the first
  fetched page is reported at \<open>100 / 2000 * 60 = 3\<close> percent.
\<close>

theorem monotonic_progress_counterexample:
  "\<not> nondecreasing (broadcast (snd (startSync drive_2000 (new_service empty_db))))"
proof
  let ?st = "new_service empty_db"
  assume mono: "nondecreasing (broadcast (snd (startSync drive_2000 ?st)))"
  have c: "fst (count_loop 0 (count_listing drive_2000) ?st) = Some 2000"
    using count_pages_from [of 0 0 19 ?st] by (simp add: drive_2000_def)
  then have n: "fst (getTotalFileCount drive_2000 ?st) = 2000"
    by (simp add: getTotalFileCount_fst)
  obtain pre where pre: "broadcast (snd (getTotalFileCount drive_2000 ?st)) = pre @ [count_event 2000]"
    using count_loop_last_event [OF c] by (auto simp: getTotalFileCount_snd)
  have "files_listing drive_2000 \<noteq> PageFailure"
    "first_page (files_listing drive_2000) = hundred_files 0"
    by (simp_all add: drive_2000_def eval_nat_numeral)
  then obtain post where post: "broadcast (snd (fetched drive_2000 ?st)) =
      broadcast (snd (getTotalFileCount drive_2000 ?st)) @ page_event 100 2000 # post"
    using fetch_loop_first_event [of "files_listing drive_2000" "[]" "counted drive_2000 ?st"] n
    by (auto simp: fetched_def length_hundred_files)
  obtain more where more: "broadcast (snd (startSync drive_2000 ?st)) =
      broadcast (snd (fetched drive_2000 ?st)) @ more"
    using after_fetch_emits [of drive_2000 ?st] n by (auto simp: emits_def)
  have "broadcast (snd (startSync drive_2000 ?st)) =
      pre @ count_event 2000 # page_event 100 2000 # post @ more"
    by (simp add: more post pre)
  then have "js_le (ev_percent (count_event 2000)) (ev_percent (page_event 100 2000))"
    using mono by (simp add: nondecreasing_def sorted_wrt_append)
  then show False
    by (simp add: count_event_def page_event_def js_div_def)
qed

text \<open>
  Claim C3, amended. The percentages of the counting phase are non-decreasing, and when
  the count is positive so are those of all events after it, from the first fetched page
  through the per-file events to the last permission event, whether the run completes or
  ends in an error. The whole sequence is non-decreasing exactly when the step from the
  last counting event to the first later event does not go down; the code does not see to
  that step.
\<close>

theorem progress_nondecreasing_after_counting:
  "\<exists>cnt. broadcast (snd (getTotalFileCount d st)) = broadcast st @ cnt \<and> nondecreasing cnt
     \<and> (0 < fst (getTotalFileCount d st) \<longrightarrow>
          (\<exists>rest. broadcast (snd (startSync d st)) = broadcast st @ cnt @ rest
             \<and> nondecreasing rest
             \<and> (cnt \<noteq> [] \<and> rest \<noteq> [] \<and> js_le (ev_percent (last cnt)) (ev_percent (hd rest))
                  \<longrightarrow> nondecreasing (cnt @ rest))))"
proof -
  obtain cnt where cnt: "broadcast (snd (getTotalFileCount d st)) = broadcast st @ cnt"
      "percents_within 0 5 cnt"
    using getTotalFileCount_emits [of st d] by (auto simp: emits_def)
  have "\<exists>rest. broadcast (snd (startSync d st)) = broadcast st @ cnt @ rest
             \<and> nondecreasing rest
             \<and> (cnt \<noteq> [] \<and> rest \<noteq> [] \<and> js_le (ev_percent (last cnt)) (ev_percent (hd rest))
                  \<longrightarrow> nondecreasing (cnt @ rest))"
    if n: "0 < fst (getTotalFileCount d st)"
  proof -
    have "emits 0 100 (counted d st) (snd (startSync d st))"
      using fetched_emits [OF n] after_fetch_emits [OF n] by (rule emits_trans)
    then obtain rest where rest: "broadcast (snd (startSync d st)) = broadcast (counted d st) @ rest"
        "percents_within 0 100 rest"
      by (auto simp: emits_def)
    have "broadcast (snd (startSync d st)) = broadcast st @ cnt @ rest"
      using rest cnt by simp
    moreover have "nondecreasing rest" using rest by (simp add: percents_within_nondecreasing)
    moreover have "cnt \<noteq> [] \<and> rest \<noteq> [] \<and> js_le (ev_percent (last cnt)) (ev_percent (hd rest))
                  \<longrightarrow> nondecreasing (cnt @ rest)"
      using percents_within_join [OF cnt(2) rest(2)] by blast
    ultimately show ?thesis by blast
  qed
  then have inner: "0 < fst (getTotalFileCount d st) \<longrightarrow>
      (\<exists>rest. broadcast (snd (startSync d st)) = broadcast st @ cnt @ rest
             \<and> nondecreasing rest
             \<and> (cnt \<noteq> [] \<and> rest \<noteq> [] \<and> js_le (ev_percent (last cnt)) (ev_percent (hd rest))
                  \<longrightarrow> nondecreasing (cnt @ rest)))"
    by (rule impI)
  have nd: "nondecreasing cnt" using cnt by (simp add: percents_within_nondecreasing)
  from cnt(1) nd inner
  have "broadcast (snd (getTotalFileCount d st)) = broadcast st @ cnt \<and> nondecreasing cnt
     \<and> (0 < fst (getTotalFileCount d st) \<longrightarrow>
          (\<exists>rest. broadcast (snd (startSync d st)) = broadcast st @ cnt @ rest
             \<and> nondecreasing rest
             \<and> (cnt \<noteq> [] \<and> rest \<noteq> [] \<and> js_le (ev_percent (last cnt)) (ev_percent (hd rest))
                  \<longrightarrow> nondecreasing (cnt @ rest))))"
    by - (intro conjI; assumption)
  then show ?thesis by (rule exI)
qed



lemma startSync_complete:
  "fst (fetched d st) = Some allFiles \<Longrightarrow>
   startSync d st =
     (SyncComplete (getSyncStats (cleanupOrphanedData (syncAllPermissions d
          (processFilesBatch (map to_drive_file allFiles) (snd (fetched d st)))))),
      cleanupOrphanedData (syncAllPermissions d
          (processFilesBatch (map to_drive_file allFiles) (snd (fetched d st)))))"
  by (simp add: startSync_unfold)

lemma startSync_failed:
  "fst (fetched d st) = None \<Longrightarrow> startSync d st = (SyncError, snd (fetched d st))"
  by (simp add: startSync_unfold)

lemma small_run: "startSync small_drive (new_service empty_db) =
    (SyncComplete (getSyncStats small_run), small_run)"
proof -
  have "fst (fetched small_drive (new_service empty_db)) = Some small_files"
    by code_simp
  then show ?thesis unfolding small_run_def by (rule startSync_complete)
qed

theorem progress_nondecreasing_after_counting_witness:
  "0 < fst (getTotalFileCount small_drive (new_service empty_db))
   \<and> map ev_percent (broadcast (snd (startSync small_drive (new_service empty_db)))) =
       [Fin (3/10), Fin 40, Fin 60, Fin (215/3), Fin (250/3), Fin 95, Fin 95, Fin (290/3),
        Fin (295/3)]
   \<and> nondecreasing (broadcast (snd (startSync small_drive (new_service empty_db))))"
proof -
  let ?st = "new_service empty_db"
  have n: "0 < fst (getTotalFileCount small_drive ?st)" by code_simp
  have c: "map ev_percent (broadcast (snd (getTotalFileCount small_drive ?st))) = [Fin (3/10)]"
    by code_simp
  have "map ev_percent (broadcast small_run) =
       [Fin (3/10), Fin 40, Fin 60, Fin (215/3), Fin (250/3), Fin 95, Fin 95, Fin (290/3),
        Fin (295/3)]"
    by code_simp
  then have r: "map ev_percent (broadcast (snd (startSync small_drive ?st))) =
       [Fin (3/10), Fin 40, Fin 60, Fin (215/3), Fin (250/3), Fin 95, Fin 95, Fin (290/3),
        Fin (295/3)]"
    by (simp add: small_run)
  have b: "broadcast ?st = []" by (simp add: new_service_def)
  obtain cnt rest where cnt: "broadcast (snd (getTotalFileCount small_drive ?st)) = cnt"
    and rest: "broadcast (snd (startSync small_drive ?st)) = cnt @ rest"
    and j: "cnt \<noteq> [] \<and> rest \<noteq> [] \<and> js_le (ev_percent (last cnt)) (ev_percent (hd rest))
              \<longrightarrow> nondecreasing (cnt @ rest)"
    using progress_nondecreasing_after_counting [of small_drive ?st] n b by auto
  obtain e where e: "cnt = [e]" "ev_percent e = Fin (3/10)"
    using c cnt by auto
  have "map ev_percent rest = [Fin 40, Fin 60, Fin (215/3), Fin (250/3), Fin 95, Fin 95,
      Fin (290/3), Fin (295/3)]"
    using r rest e by simp
  then obtain e' rest' where "rest = e' # rest'" "ev_percent e' = Fin 40"
    by auto
  then have "nondecreasing (cnt @ rest)" using j e by simp
  then show ?thesis using n r rest by simp
qed

section \<open>The permission phase\<close>

subsection \<open>One permission\<close>

lemma perm_ids_record_entry [simp]: "perm_ids (record_entry e db) = perm_ids db"
  by (simp add: perm_ids_def)

lemma perm_ids_transaction [simp]:
  "perm_ids (begin_transaction db) = perm_ids db" "perm_ids (refuse e db) = perm_ids db"
  by (simp_all add: perm_ids_def)

lemma findUnique_perm_None': "findUnique_perm db i = None \<longleftrightarrow> i \<notin> perm_ids db"
  by (simp add: findUnique_perm_None perm_ids_def)

lemma write_perm_result:
  assumes "write_perm db r = Inr db'"
  shows "db' = db \<and> findUnique_perm db (pr_id r) = Some r \<or>
        db' = record_entry (PermCreated (pr_id r)) (db\<lparr>drivePermission := drivePermission db @ [r]\<rparr>)
         \<and> findUnique_perm db (pr_id r) = None \<or>
        db' = record_entry (PermUpdated (pr_id r))
           (db\<lparr>drivePermission := map (\<lambda>x. if pr_id x = pr_id r then r else x) (drivePermission db)\<rparr>)
         \<and> findUnique_perm db (pr_id r) \<noteq> None"
  using assms by (auto simp: write_perm_cases split: if_splits)

lemma write_perm_preserves:
  assumes "write_perm db r = Inr db'"
  shows "driveFile db' = driveFile db" "rejectsFile db' = rejectsFile db"
    "rejectsPerm db' = rejectsPerm db" "file_ids db' = file_ids db"
    "perm_ids db' = insert (pr_id r) (perm_ids db)"
    "tx_snapshot db' = tx_snapshot db" "tx_failed db' = tx_failed db"
proof -
  note c = write_perm_result [OF assms]
  show "tx_snapshot db' = tx_snapshot db" using c by auto
  show "tx_failed db' = tx_failed db" using c by auto
  show "driveFile db' = driveFile db" using c by auto
  show "rejectsFile db' = rejectsFile db" using c by auto
  show "rejectsPerm db' = rejectsPerm db" using c by auto
  show "file_ids db' = file_ids db" using c by (auto simp: file_ids_def)
  show "perm_ids db' = insert (pr_id r) (perm_ids db)"
    using c
  proof (elim disjE conjE)
    assume "db' = db" "findUnique_perm db (pr_id r) = Some r"
    then show ?thesis using findUnique_perm_None' [of db "pr_id r"] by auto
  next
    assume "db' = record_entry (PermCreated (pr_id r)) (db\<lparr>drivePermission := drivePermission db @ [r]\<rparr>)"
    then show ?thesis by (simp add: perm_ids_def)
  next
    assume d: "db' = record_entry (PermUpdated (pr_id r))
           (db\<lparr>drivePermission := map (\<lambda>x. if pr_id x = pr_id r then r else x) (drivePermission db)\<rparr>)"
      and f: "findUnique_perm db (pr_id r) \<noteq> None"
    have "drivePermission db' = map (\<lambda>x. if pr_id x = pr_id r then r else x) (drivePermission db)"
      by (simp add: d)
    then have "map pr_id (drivePermission db') = map pr_id (drivePermission db)"
      by (simp only: map_replace_ids)
    then have "set (map pr_id (drivePermission db')) = set (map pr_id (drivePermission db))"
      by (rule arg_cong)
    then have "perm_ids db' = perm_ids db" by (simp add: perm_ids_def)
    then show ?thesis using f findUnique_perm_None' [of db "pr_id r"] by auto
  qed
qed

lemma write_perm_fails:
  "write_perm db r = Inl e \<Longrightarrow> rejectsPerm db r \<or> pr_fileId r \<notin> set (file_ids db)"
  by (auto simp: write_perm_cases split: if_splits)

lemma write_perm_aborts: "write_perm db r = Inl e \<Longrightarrow> aborts e"
  by (auto simp: write_perm_cases split: if_splits)

lemma write_perm_succeeds:
  "\<not> rejectsPerm db r \<Longrightarrow> pr_fileId r \<in> set (file_ids db) \<Longrightarrow> \<exists>db'. write_perm db r = Inr db'"
  by (simp add: write_perm_cases)

lemma write_perm_other:
  assumes "write_perm db r = Inr db'" "i \<noteq> pr_id r"
  shows "findUnique_perm db' i = findUnique_perm db i"
  using write_perm_result [OF assms(1)] assms(2)
  by (auto simp: findUnique_perm_def find_append find_replace_other split: option.splits)

lemma process_permission_seen:
  "sp_id p \<in> ids \<Longrightarrow> process_permission f p (st, ids) = (st, ids)"
  by (simp add: process_permission_def)

lemma process_permission_failed:
  "sp_id p \<notin> ids \<Longrightarrow> tx_failed (prisma st) \<Longrightarrow>
   process_permission f p (st, ids) = (st\<lparr>errors := errors st + 1\<rparr>, ids)"
  by (simp add: process_permission_def)

lemma process_permission_failure:
  "sp_id p \<notin> ids \<Longrightarrow> \<not> tx_failed (prisma st) \<Longrightarrow>
   write_perm (prisma st) (perm_row_of f p) = Inl e \<Longrightarrow>
   process_permission f p (st, ids) =
     (st\<lparr>errors := errors st + 1, prisma := refuse e (prisma st)\<rparr>, ids)"
  by (simp add: process_permission_def)

lemma process_permission_success:
  "sp_id p \<notin> ids \<Longrightarrow> \<not> tx_failed (prisma st) \<Longrightarrow>
   write_perm (prisma st) (perm_row_of f p) = Inr db \<Longrightarrow>
   process_permission f p (st, ids) =
     (st\<lparr>prisma := db, processedPermissions := processedPermissions st + 1\<rparr>, insert (sp_id p) ids)"
  by (simp add: process_permission_def)

lemma perm_row_of_simps [simp]:
  "pr_id (perm_row_of f p) = sp_id p" "pr_fileId (perm_row_of f p) = f"
  by (simp_all add: perm_row_of_def)

subsection \<open>What the permission phase leaves behind\<close>

lemma expected_lookup_Nil: "expected_lookup [] seen db i = findUnique_perm db i"
  by (simp add: expected_lookup_def)

lemma expected_lookup_append:
  assumes "\<And>j. findUnique_perm db1 j = expected_lookup xs seen db j"
  shows "expected_lookup ys (seen \<union> pr_id ` set xs) db1 i = expected_lookup (xs @ ys) seen db i"
proof (cases "i \<in> seen")
  case True
  then show ?thesis using assms [of i] by (simp add: expected_lookup_def)
next
  case False
  show ?thesis
  proof (cases "find (\<lambda>r. pr_id r = i) xs")
    case None
    then have "i \<notin> pr_id ` set xs" by (simp add: find_None_image)
    then show ?thesis
      using assms [of i] False None
      by (auto simp: expected_lookup_def find_append split: option.splits)
  next
    case (Some r)
    then have "i \<in> pr_id ` set xs" using find_None_image [of pr_id i xs] by auto
    then show ?thesis
      using assms [of i] False Some by (simp add: expected_lookup_def find_append)
  qed
qed

lemma acceptable_append:
  "acceptable (xs @ ys) st \<longleftrightarrow> acceptable xs st \<and> acceptable ys st"
  by (auto simp: acceptable_def)

lemma acceptable_cong:
  "driveFile (prisma st') = driveFile (prisma st) \<Longrightarrow>
   rejectsPerm (prisma st') = rejectsPerm (prisma st) \<Longrightarrow>
   acceptable occs st' = acceptable occs st"
  by (simp add: acceptable_def file_ids_def)

lemma grants_ok_trans:
  assumes 1: "grants_ok k xs s s1" and 2: "grants_ok l ys s1 s2"
  shows "grants_ok (k + l) (xs @ ys) s s2"
proof -
  have env: "driveFile (prisma (fst s1)) = driveFile (prisma (fst s))"
    "rejectsPerm (prisma (fst s1)) = rejectsPerm (prisma (fst s))"
    using 1 by (simp_all add: grants_ok_def)
  have base: "driveFile (prisma (fst s2)) = driveFile (prisma (fst s))
     \<and> rejectsFile (prisma (fst s2)) = rejectsFile (prisma (fst s))
     \<and> rejectsPerm (prisma (fst s2)) = rejectsPerm (prisma (fst s))
     \<and> totalFiles (fst s2) = totalFiles (fst s)
     \<and> processedFiles (fst s2) = processedFiles (fst s)
     \<and> perm_ids (prisma (fst s)) \<subseteq> perm_ids (prisma (fst s2))
     \<and> snd s \<subseteq> snd s2
     \<and> (distinct (map pr_id (drivePermission (prisma (fst s)))) \<longrightarrow>
          distinct (map pr_id (drivePermission (prisma (fst s2)))))"
    using 1 2 unfolding grants_ok_def by (simp add: subset_eq)
  have guarded: "errors (fst s2) = errors (fst s) + (k + l)
          \<and> snd s2 = snd s \<union> pr_id ` set (xs @ ys)
          \<and> (snd s \<subseteq> perm_ids (prisma (fst s)) \<longrightarrow> snd s2 \<subseteq> perm_ids (prisma (fst s2)))
          \<and> (\<forall>i. findUnique_perm (prisma (fst s2)) i =
                   expected_lookup (xs @ ys) (snd s) (prisma (fst s)) i)"
    if acc: "acceptable (xs @ ys) (fst s)"
  proof -
    have ax: "acceptable xs (fst s)" and ay: "acceptable ys (fst s1)"
      using acc acceptable_cong [OF env] by (simp_all add: acceptable_append)
    have G1: "errors (fst s1) = errors (fst s) + k \<and> snd s1 = snd s \<union> pr_id ` set xs
      \<and> (snd s \<subseteq> perm_ids (prisma (fst s)) \<longrightarrow> snd s1 \<subseteq> perm_ids (prisma (fst s1)))
      \<and> (\<forall>i. findUnique_perm (prisma (fst s1)) i = expected_lookup xs (snd s) (prisma (fst s)) i)"
      using 1 ax unfolding grants_ok_def by blast
    have g1: "errors (fst s1) = errors (fst s) + k" "snd s1 = snd s \<union> pr_id ` set xs"
      "snd s \<subseteq> perm_ids (prisma (fst s)) \<longrightarrow> snd s1 \<subseteq> perm_ids (prisma (fst s1))"
      "\<And>i. findUnique_perm (prisma (fst s1)) i = expected_lookup xs (snd s) (prisma (fst s)) i"
      using G1 by blast+
    have G2: "errors (fst s2) = errors (fst s1) + l \<and> snd s2 = snd s1 \<union> pr_id ` set ys
      \<and> (snd s1 \<subseteq> perm_ids (prisma (fst s1)) \<longrightarrow> snd s2 \<subseteq> perm_ids (prisma (fst s2)))
      \<and> (\<forall>i. findUnique_perm (prisma (fst s2)) i = expected_lookup ys (snd s1) (prisma (fst s1)) i)"
      using 2 ay unfolding grants_ok_def by blast
    have g2: "errors (fst s2) = errors (fst s1) + l" "snd s2 = snd s1 \<union> pr_id ` set ys"
      "snd s1 \<subseteq> perm_ids (prisma (fst s1)) \<longrightarrow> snd s2 \<subseteq> perm_ids (prisma (fst s2))"
      "\<And>i. findUnique_perm (prisma (fst s2)) i = expected_lookup ys (snd s1) (prisma (fst s1)) i"
      using G2 by blast+
    have "findUnique_perm (prisma (fst s2)) i =
        expected_lookup (xs @ ys) (snd s) (prisma (fst s)) i" for i
      using g2(4) [of i] expected_lookup_append [of "prisma (fst s1)" xs "snd s" "prisma (fst s)" ys i]
        g1(4) by (simp add: g1(2))
    then show ?thesis using g1 g2 by (simp add: Un_assoc image_Un)
  qed
  show ?thesis
    unfolding grants_ok_def using base guarded by blast
qed

lemma grants_ok_refl: "grants_ok 0 [] s s"
  by (simp add: grants_ok_def expected_lookup_Nil)

lemma write_perm_distinct:
  assumes "write_perm db r = Inr db'" "distinct (map pr_id (drivePermission db))"
  shows "distinct (map pr_id (drivePermission db'))"
  using write_perm_result [OF assms(1)]
proof (elim disjE conjE)
  assume "db' = db"
  then show ?thesis using assms(2) by simp
next
  assume "db' = record_entry (PermCreated (pr_id r)) (db\<lparr>drivePermission := drivePermission db @ [r]\<rparr>)"
    and "findUnique_perm db (pr_id r) = None"
  then show ?thesis using assms(2) by (simp add: findUnique_perm_None)
next
  assume "db' = record_entry (PermUpdated (pr_id r))
           (db\<lparr>drivePermission := map (\<lambda>x. if pr_id x = pr_id r then r else x) (drivePermission db)\<rparr>)"
  then have "drivePermission db' = map (\<lambda>x. if pr_id x = pr_id r then r else x) (drivePermission db)"
    by simp
  then have "map pr_id (drivePermission db') = map pr_id (drivePermission db)"
    by (simp only: map_replace_ids)
  then show ?thesis using assms(2) by simp
qed

lemma grants_tx_refl: "grants_tx [] s s"
  by (simp add: grants_tx_def expected_lookup_Nil)

lemma grants_tx_trans:
  assumes 1: "grants_tx xs s s1" and 2: "grants_tx ys s1 s2"
  shows "grants_tx (xs @ ys) s s2"
proof -
  have env: "driveFile (prisma (fst s1)) = driveFile (prisma (fst s))"
    "rejectsPerm (prisma (fst s1)) = rejectsPerm (prisma (fst s))"
    using 1 by (simp_all add: grants_tx_def)
  have base: "tx_snapshot (prisma (fst s2)) = tx_snapshot (prisma (fst s))
     \<and> (tx_failed (prisma (fst s)) \<longrightarrow> tx_failed (prisma (fst s2)))
     \<and> driveFile (prisma (fst s2)) = driveFile (prisma (fst s))
     \<and> rejectsFile (prisma (fst s2)) = rejectsFile (prisma (fst s))
     \<and> rejectsPerm (prisma (fst s2)) = rejectsPerm (prisma (fst s))
     \<and> totalFiles (fst s2) = totalFiles (fst s)
     \<and> processedFiles (fst s2) = processedFiles (fst s)
     \<and> perm_ids (prisma (fst s)) \<subseteq> perm_ids (prisma (fst s2))
     \<and> snd s \<subseteq> snd s2
     \<and> (distinct (map pr_id (drivePermission (prisma (fst s)))) \<longrightarrow>
          distinct (map pr_id (drivePermission (prisma (fst s2)))))"
    using 1 2 unfolding grants_tx_def by (simp add: subset_eq)
  have guarded: "\<not> tx_failed (prisma (fst s2))
          \<and> errors (fst s2) = errors (fst s)
          \<and> snd s2 = snd s \<union> pr_id ` set (xs @ ys)
          \<and> (snd s \<subseteq> perm_ids (prisma (fst s)) \<longrightarrow> snd s2 \<subseteq> perm_ids (prisma (fst s2)))
          \<and> (\<forall>i. findUnique_perm (prisma (fst s2)) i =
                   expected_lookup (xs @ ys) (snd s) (prisma (fst s)) i)"
    if live: "\<not> tx_failed (prisma (fst s))" and acc: "acceptable (xs @ ys) (fst s)"
  proof -
    have ax: "acceptable xs (fst s)" and ay: "acceptable ys (fst s1)"
      using acc acceptable_cong [OF env] by (simp_all add: acceptable_append)
    have G1: "\<not> tx_failed (prisma (fst s1))
      \<and> errors (fst s1) = errors (fst s) \<and> snd s1 = snd s \<union> pr_id ` set xs
      \<and> (snd s \<subseteq> perm_ids (prisma (fst s)) \<longrightarrow> snd s1 \<subseteq> perm_ids (prisma (fst s1)))
      \<and> (\<forall>i. findUnique_perm (prisma (fst s1)) i = expected_lookup xs (snd s) (prisma (fst s)) i)"
      using 1 ax live unfolding grants_tx_def by blast
    have g1: "\<not> tx_failed (prisma (fst s1))"
      "errors (fst s1) = errors (fst s)" "snd s1 = snd s \<union> pr_id ` set xs"
      "snd s \<subseteq> perm_ids (prisma (fst s)) \<longrightarrow> snd s1 \<subseteq> perm_ids (prisma (fst s1))"
      "\<And>i. findUnique_perm (prisma (fst s1)) i = expected_lookup xs (snd s) (prisma (fst s)) i"
      using G1 by blast+
    have G2: "\<not> tx_failed (prisma (fst s2))
      \<and> errors (fst s2) = errors (fst s1) \<and> snd s2 = snd s1 \<union> pr_id ` set ys
      \<and> (snd s1 \<subseteq> perm_ids (prisma (fst s1)) \<longrightarrow> snd s2 \<subseteq> perm_ids (prisma (fst s2)))
      \<and> (\<forall>i. findUnique_perm (prisma (fst s2)) i = expected_lookup ys (snd s1) (prisma (fst s1)) i)"
      using 2 ay g1(1) unfolding grants_tx_def by blast
    have g2: "\<not> tx_failed (prisma (fst s2))"
      "errors (fst s2) = errors (fst s1)" "snd s2 = snd s1 \<union> pr_id ` set ys"
      "snd s1 \<subseteq> perm_ids (prisma (fst s1)) \<longrightarrow> snd s2 \<subseteq> perm_ids (prisma (fst s2))"
      "\<And>i. findUnique_perm (prisma (fst s2)) i = expected_lookup ys (snd s1) (prisma (fst s1)) i"
      using G2 by blast+
    have "findUnique_perm (prisma (fst s2)) i =
        expected_lookup (xs @ ys) (snd s) (prisma (fst s)) i" for i
      using g2(5) [of i] expected_lookup_append [of "prisma (fst s1)" xs "snd s" "prisma (fst s)" ys i]
        g1(5) by (simp add: g1(3))
    then show ?thesis using g1 g2 by (simp add: Un_assoc image_Un)
  qed
  show ?thesis
    unfolding grants_tx_def using base guarded by blast
qed

lemma grants_txD:
  assumes "grants_tx occs s s'" "\<not> tx_failed (prisma (fst s))" "acceptable occs (fst s)"
  shows "\<not> tx_failed (prisma (fst s'))"
    and "errors (fst s') = errors (fst s)"
    and "snd s' = snd s \<union> pr_id ` set occs"
    and "snd s \<subseteq> perm_ids (prisma (fst s)) \<Longrightarrow> snd s' \<subseteq> perm_ids (prisma (fst s'))"
    and "findUnique_perm (prisma (fst s')) i = expected_lookup occs (snd s) (prisma (fst s)) i"
  using assms unfolding grants_tx_def by blast+

lemma process_permission_tx:
  "grants_tx [perm_row_of f p] s (process_permission f p s)"
proof -
  obtain st ids where s: "s = (st, ids)" by (cases s)
  let ?r = "perm_row_of f p"
  show ?thesis
  proof (cases "sp_id p \<in> ids")
    case True
    have "expected_lookup [?r] ids (prisma st) i = findUnique_perm (prisma st) i" for i
      using True by (auto simp: expected_lookup_def)
    then show ?thesis
      using True by (auto simp: s process_permission_seen grants_tx_def)
  next
    case False
    show ?thesis
    proof (cases "tx_failed (prisma st)")
      case True
      then show ?thesis
        using False by (simp add: s process_permission_failed grants_tx_def)
    next
      case live: False
      show ?thesis
      proof (cases "write_perm (prisma st) ?r")
        case (Inl e)
        have "\<not> acceptable [?r] st"
          using write_perm_fails [OF Inl] by (auto simp: acceptable_def)
        then show ?thesis
          using False live Inl
          by (simp add: s process_permission_failure grants_tx_def refuse_failed)
      next
        case (Inr db)
        note p = write_perm_preserves [OF Inr]
        have look: "findUnique_perm db i = expected_lookup [?r] ids (prisma st) i" for i
        proof (cases "i = sp_id p")
          case True
          then show ?thesis
            using write_perm_lookup [OF Inr] False by (simp add: expected_lookup_def)
        next
          case ne: False
          then show ?thesis
            using write_perm_other [OF Inr, of i] by (simp add: expected_lookup_def)
        qed
        have d: "distinct (map pr_id (drivePermission (prisma st))) \<longrightarrow>
            distinct (map pr_id (drivePermission db))"
          using write_perm_distinct [OF Inr] by blast
        show ?thesis
          using False live Inr p d look
          by (auto simp: s process_permission_success grants_tx_def)
      qed
    qed
  qed
qed

lemma fold_process_permission_tx:
  "grants_tx (map (perm_row_of f) ps) s (fold (process_permission f) ps s)"
proof (induction ps arbitrary: s)
  case Nil
  show ?case by (simp add: grants_tx_refl)
next
  case (Cons p ps)
  have "grants_tx ([perm_row_of f p] @ map (perm_row_of f) ps) s
      (fold (process_permission f) ps (process_permission f p s))"
    using process_permission_tx Cons.IH by (rule grants_tx_trans)
  then show ?case by simp
qed

lemma grants_ok_admin:
  assumes "prisma st' = prisma st \<or> (\<exists>e. prisma st' = record_entry e (prisma st))"
    "totalFiles st' = totalFiles st" "processedFiles st' = processedFiles st"
    "errors st' = errors st + k"
  shows "grants_ok k [] (st, ids) (st', ids)"
  using assms by (auto simp: grants_ok_def expected_lookup_def findUnique_perm_def)

text \<open>
  The transaction of one file: committed with what its permissions wrote, or, when a
  write was refused, rolled back to the tables it began with.
\<close>

lemma file_transaction_tables:
  assumes "permissions_list d (snd file) = Some ps"
  shows "driveFile (prisma (fst (sync_file_permissions d n file (st, ids)))) = driveFile (prisma st)"
    and "drivePermission (prisma (fst (sync_file_permissions d n file (st, ids)))) =
       (if tx_failed (prisma (fst (fold (process_permission (snd file)) ps
              (tx_begin (st\<lparr>totalPermissions := totalPermissions st + length ps\<rparr>), ids))))
        then drivePermission (prisma st)
        else drivePermission (prisma (fst (fold (process_permission (snd file)) ps
              (tx_begin (st\<lparr>totalPermissions := totalPermissions st + length ps\<rparr>), ids)))))"
proof -
  let ?st0 = "tx_begin (st\<lparr>totalPermissions := totalPermissions st + length ps\<rparr>)"
  let ?s1 = "fold (process_permission (snd file)) ps (?st0, ids)"
  have t: "grants_tx (map (perm_row_of (snd file)) ps) (?st0, ids) ?s1"
    by (rule fold_process_permission_tx)
  then have snap: "tx_snapshot (prisma (fst ?s1)) = Some (driveFile (prisma st), drivePermission (prisma st))"
    by (simp add: grants_tx_def)
  have files: "driveFile (prisma (fst ?s1)) = driveFile (prisma st)"
    using t by (simp add: grants_tx_def)
  note c = commit_transaction_tables [OF snap]
  show "driveFile (prisma (fst (sync_file_permissions d n file (st, ids)))) = driveFile (prisma st)"
    using c files by (simp add: sync_file_permissions_Some [OF assms])
  show "drivePermission (prisma (fst (sync_file_permissions d n file (st, ids)))) =
       (if tx_failed (prisma (fst ?s1)) then drivePermission (prisma st)
        else drivePermission (prisma (fst ?s1)))"
    using c by (simp add: sync_file_permissions_Some [OF assms])
qed

lemma sync_file_permissions_ok:
  "grants_ok (failed_listings d [snd file]) (listed_rows d [snd file]) s
     (sync_file_permissions d n file s)"
proof -
  obtain st ids where s: "s = (st, ids)" by (cases s)
  show ?thesis
  proof (cases "permissions_list d (snd file)")
    case None
    have "grants_ok 1 [] (st, ids) (st\<lparr>errors := errors st + 1\<rparr>, ids)"
      by (rule grants_ok_admin) simp_all
    then show ?thesis
      by (simp add: s sync_file_permissions_None [OF None] failed_listings_def listed_rows_def None)
  next
    case (Some ps)
    let ?rows = "map (perm_row_of (snd file)) ps"
    let ?st0 = "tx_begin (st\<lparr>totalPermissions := totalPermissions st + length ps\<rparr>)"
    let ?s1 = "fold (process_permission (snd file)) ps (?st0, ids)"
    let ?s2 = "sync_file_permissions d n file (st, ids)"
    have t: "grants_tx ?rows (?st0, ids) ?s1" by (rule fold_process_permission_tx)
    note tb = file_transaction_tables [OF Some, of n st ids]
    have s2: "?s2 = (broadcastProgress (permission_event (fst file) n) (tx_commit (fst ?s1)), snd ?s1)"
      by (rule sync_file_permissions_Some [OF Some])
    have perms: "drivePermission (prisma (fst ?s2)) = drivePermission (prisma st)
        \<or> drivePermission (prisma (fst ?s2)) = drivePermission (prisma (fst ?s1))"
      using tb(2) by (simp split: if_splits)
    have ids: "perm_ids (prisma st) \<subseteq> perm_ids (prisma (fst ?s1))"
      using t by (simp add: grants_tx_def)
    have u1: "perm_ids (prisma st) \<subseteq> perm_ids (prisma (fst ?s2))"
      using perms ids by (auto simp: perm_ids_def)
    have d1: "distinct (map pr_id (drivePermission (prisma st))) \<longrightarrow>
        distinct (map pr_id (drivePermission (prisma (fst ?s1))))"
      using t by (simp add: grants_tx_def)
    have u2: "distinct (map pr_id (drivePermission (prisma st))) \<longrightarrow>
        distinct (map pr_id (drivePermission (prisma (fst ?s2))))"
      using perms d1 by auto
    have u3: "rejectsFile (prisma (fst ?s2)) = rejectsFile (prisma st)"
      "rejectsPerm (prisma (fst ?s2)) = rejectsPerm (prisma st)"
      "totalFiles (fst ?s2) = totalFiles st" "processedFiles (fst ?s2) = processedFiles st"
      "ids \<subseteq> snd ?s2"
      using t by (simp_all add: s2 grants_tx_def)
    have guarded: "errors (fst ?s2) = errors st
          \<and> snd ?s2 = ids \<union> pr_id ` set ?rows
          \<and> (ids \<subseteq> perm_ids (prisma st) \<longrightarrow> snd ?s2 \<subseteq> perm_ids (prisma (fst ?s2)))
          \<and> (\<forall>i. findUnique_perm (prisma (fst ?s2)) i = expected_lookup ?rows ids (prisma st) i)"
      if acc: "acceptable ?rows st"
    proof -
      have a0: "acceptable ?rows (fst (?st0, ids))" "\<not> tx_failed (prisma (fst (?st0, ids)))"
        using acc by (simp_all add: acceptable_def)
      note g = grants_txD [OF t a0(2) a0(1)]
      have G1: "\<not> tx_failed (prisma (fst ?s1))" using g(1) .
      have G2: "errors (fst ?s1) = errors st" using g(2) by simp
      have G3: "snd ?s1 = ids \<union> pr_id ` set ?rows" using g(3) by simp
      have G4: "ids \<subseteq> perm_ids (prisma st) \<longrightarrow> snd ?s1 \<subseteq> perm_ids (prisma (fst ?s1))"
        using g(4) by simp
      have e: "expected_lookup ?rows ids (prisma ?st0) i = expected_lookup ?rows ids (prisma st) i" for i
        by (simp add: expected_lookup_def split: option.splits)
      have G5: "findUnique_perm (prisma (fst ?s1)) i = expected_lookup ?rows ids (prisma st) i" for i
        using g(5) [of i] e [of i] by simp
      have same: "drivePermission (prisma (fst ?s2)) = drivePermission (prisma (fst ?s1))"
        using tb(2) G1 by simp
      have l: "findUnique_perm (prisma (fst ?s2)) i = findUnique_perm (prisma (fst ?s1)) i" for i
        by (simp add: findUnique_perm_def same)
      have pi: "perm_ids (prisma (fst ?s2)) = perm_ids (prisma (fst ?s1))"
        by (simp add: perm_ids_def same)
      have f2: "errors (fst ?s2) = errors (fst ?s1)" "snd ?s2 = snd ?s1"
        by (simp_all add: s2)
      have L: "\<forall>i. findUnique_perm (prisma (fst ?s2)) i = expected_lookup ?rows ids (prisma st) i"
        using G5 l by simp
      have P: "ids \<subseteq> perm_ids (prisma st) \<longrightarrow> snd ?s2 \<subseteq> perm_ids (prisma (fst ?s2))"
        using G4 by (simp only: f2 pi)
      have E: "errors (fst ?s2) = errors st" "snd ?s2 = ids \<union> pr_id ` set ?rows"
        using G2 G3 by (simp_all only: f2)
      from E P L show ?thesis by - (intro conjI; assumption)
    qed
    have "grants_ok 0 ?rows (st, ids) ?s2"
      unfolding grants_ok_def fst_conv snd_conv add_0_right
      using tb(1) u1 u2 u3 guarded by blast
    then show ?thesis
      by (simp add: s failed_listings_def listed_rows_def Some)
  qed
qed

lemma listed_rows_Cons: "listed_rows d (f # fs) = listed_rows d [f] @ listed_rows d fs"
  by (simp add: listed_rows_def)

lemma failed_listings_Cons: "failed_listings d (f # fs) = failed_listings d [f] + failed_listings d fs"
  by (simp add: failed_listings_def)

lemma fold_sync_file_permissions_ok:
  "grants_ok (failed_listings d fs) (listed_rows d fs) s
     (fold (sync_file_permissions d n) (enumerate k fs) s)"
proof (induction fs arbitrary: k s)
  case Nil
  show ?case by (simp add: grants_ok_refl failed_listings_def listed_rows_def)
next
  case (Cons f fs)
  have 1: "grants_ok (failed_listings d [f]) (listed_rows d [f]) s
      (sync_file_permissions d n (k, f) s)"
    using sync_file_permissions_ok [of d "(k, f)" s n] by simp
  have "grants_ok (failed_listings d [f] + failed_listings d fs)
      (listed_rows d [f] @ listed_rows d fs) s
      (fold (sync_file_permissions d n) (enumerate (Suc k) fs) (sync_file_permissions d n (k, f) s))"
    using 1 Cons.IH by (rule grants_ok_trans)
  then show ?case
    by (simp add: listed_rows_Cons [of d f fs] failed_listings_Cons [of d f fs])
qed

lemma grants_okD:
  assumes "grants_ok k occs s s'" "acceptable occs (fst s)"
  shows "errors (fst s') = errors (fst s) + k"
    and "snd s' = snd s \<union> pr_id ` set occs"
    and "snd s \<subseteq> perm_ids (prisma (fst s)) \<Longrightarrow> snd s' \<subseteq> perm_ids (prisma (fst s'))"
    and "findUnique_perm (prisma (fst s')) i = expected_lookup occs (snd s) (prisma (fst s)) i"
  using assms unfolding grants_ok_def by blast+

lemma grants_ok_envD:
  assumes "grants_ok k occs s s'"
  shows "driveFile (prisma (fst s')) = driveFile (prisma (fst s))"
    and "rejectsFile (prisma (fst s')) = rejectsFile (prisma (fst s))"
    and "rejectsPerm (prisma (fst s')) = rejectsPerm (prisma (fst s))"
    and "totalFiles (fst s') = totalFiles (fst s)"
    and "processedFiles (fst s') = processedFiles (fst s)"
    and "perm_ids (prisma (fst s)) \<subseteq> perm_ids (prisma (fst s'))"
    and "distinct (map pr_id (drivePermission (prisma (fst s)))) \<Longrightarrow>
         distinct (map pr_id (drivePermission (prisma (fst s'))))"
  using assms unfolding grants_ok_def by blast+

lemma listed_rows_fileId: "r \<in> set (listed_rows d fs) \<Longrightarrow> pr_fileId r \<in> set fs"
  by (auto simp: listed_rows_def split: option.splits)


lemma syncAllPermissions_ok:
  "grants_ok (failed_listings d (file_ids (prisma st))) (listed_rows d (file_ids (prisma st)))
     (st\<lparr>totalPermissions := 0\<rparr>, {})
     (fold (sync_file_permissions d (length (file_ids (prisma st))))
        (enumerate 0 (file_ids (prisma st))) (st\<lparr>totalPermissions := 0\<rparr>, {}))"
  by (rule fold_sync_file_permissions_ok)

lemma syncAllPermissions_fold:
  "syncAllPermissions d st =
     fst (fold (sync_file_permissions d (length (file_ids (prisma st))))
        (enumerate 0 (file_ids (prisma st))) (st\<lparr>totalPermissions := 0\<rparr>, {}))"
  by (simp add: syncAllPermissions_def Let_def)

lemma acceptable_listed:
  "(\<forall>r\<in>set (listed_rows d (file_ids (prisma st))). \<not> rejectsPerm (prisma st) r) \<Longrightarrow>
   acceptable (listed_rows d (file_ids (prisma st))) (st\<lparr>totalPermissions := 0\<rparr>)"
  by (auto simp: acceptable_def dest: listed_rows_fileId)



subsection \<open>A failing listing in the one-shot endpoint\<close>


subsection \<open>Each permission id is processed once\<close>

lemma writes_to_simps [simp]:
  "writes_to i [] = 0"
  "writes_to i (W @ V) = writes_to i W + writes_to i V"
  "writes_to i [TxBegin] = 0" "writes_to i [TxCommit] = 0"
  "writes_to i [PermCreated j] = (if i = j then 1 else 0)"
  "writes_to i [PermUpdated j] = (if i = j then 1 else 0)"
  by (auto simp: writes_to_def)

lemma once_ok_refl: "once_ok [] s s"
  by (simp add: once_ok_def)

lemma once_ok_trans:
  assumes 1: "once_ok xs s s1" and 2: "once_ok ys s1 s2" and fin: "finite (snd s2)"
  shows "once_ok (xs @ ys) s s2"
proof -
  have sub: "snd s \<subseteq> snd s1" "snd s1 \<subseteq> snd s2" "snd s1 \<subseteq> snd s \<union> pr_id ` set xs"
    "snd s2 \<subseteq> snd s1 \<union> pr_id ` set ys"
    using 1 2 by (simp_all add: once_ok_def)
  obtain W where W: "journal (prisma (fst s1)) = journal (prisma (fst s)) @ W"
    "\<And>i. writes_to i W \<le> (if i \<in> snd s1 - snd s then 1 else 0)"
    using 1 unfolding once_ok_def by blast
  obtain V where V: "journal (prisma (fst s2)) = journal (prisma (fst s1)) @ V"
    "\<And>i. writes_to i V \<le> (if i \<in> snd s2 - snd s1 then 1 else 0)"
    using 2 unfolding once_ok_def by blast
  have j: "journal (prisma (fst s2)) = journal (prisma (fst s)) @ (W @ V)"
    using W V by simp
  have w: "writes_to i (W @ V) \<le> (if i \<in> snd s2 - snd s then 1 else 0)" for i
    using W(2) [of i] V(2) [of i] sub by (auto split: if_splits)
  have "snd s2 - snd s = (snd s1 - snd s) \<union> (snd s2 - snd s1)"
    "(snd s1 - snd s) \<inter> (snd s2 - snd s1) = {}"
    using sub by auto
  moreover have "finite (snd s1 - snd s)" "finite (snd s2 - snd s1)"
    using fin sub by (auto intro: finite_subset)
  ultimately have "card (snd s2 - snd s) = card (snd s1 - snd s) + card (snd s2 - snd s1)"
    by (simp add: card_Un_disjoint)
  then have p: "processedPermissions (fst s2) = processedPermissions (fst s) + card (snd s2 - snd s)"
    using 1 2 by (simp add: once_ok_def)
  have "snd s \<subseteq> snd s2" "snd s2 \<subseteq> snd s \<union> pr_id ` set (xs @ ys)"
    using sub by (auto simp: image_Un)
  then show ?thesis
    unfolding once_ok_def using p j w by blast
qed

lemma once_ok_admin:
  assumes "journal (prisma st') = journal (prisma st)
      \<or> journal (prisma st') = journal (prisma st) @ [TxBegin]
      \<or> journal (prisma st') = journal (prisma st) @ [TxCommit]"
    "processedPermissions st' = processedPermissions st"
  shows "once_ok [] (st, ids) (st', ids)"
proof -
  have "\<exists>W. journal (prisma st') = journal (prisma st) @ W \<and> (\<forall>i. writes_to i W = 0)"
    using assms(1)
  proof (elim disjE)
    assume "journal (prisma st') = journal (prisma st)"
    then show ?thesis by (intro exI [of _ "[]"]) simp
  next
    assume "journal (prisma st') = journal (prisma st) @ [TxBegin]"
    then show ?thesis by (intro exI [of _ "[TxBegin]"]) simp
  next
    assume "journal (prisma st') = journal (prisma st) @ [TxCommit]"
    then show ?thesis by (intro exI [of _ "[TxCommit]"]) simp
  qed
  then show ?thesis using assms(2) by (auto simp: once_ok_def)
qed

lemma write_perm_journal:
  assumes "write_perm db r = Inr db'"
  shows "\<exists>W. journal db' = journal db @ W \<and> (\<forall>i. writes_to i W \<le> (if i = pr_id r then 1 else 0))"
  using write_perm_result [OF assms]
proof (elim disjE conjE)
  assume "db' = db"
  then show ?thesis by (intro exI [of _ "[]"]) simp
next
  assume "db' = record_entry (PermCreated (pr_id r)) (db\<lparr>drivePermission := drivePermission db @ [r]\<rparr>)"
  then show ?thesis by (intro exI [of _ "[PermCreated (pr_id r)]"]) simp
next
  assume "db' = record_entry (PermUpdated (pr_id r))
           (db\<lparr>drivePermission := map (\<lambda>x. if pr_id x = pr_id r then r else x) (drivePermission db)\<rparr>)"
  then show ?thesis by (intro exI [of _ "[PermUpdated (pr_id r)]"]) simp
qed

lemma process_permission_unwritten:
  assumes "sp_id p \<notin> ids"
    and "tx_failed (prisma st) \<or> (\<exists>e. write_perm (prisma st) (perm_row_of f p) = Inl e)"
  shows "snd (process_permission f p (st, ids)) = ids"
    and "journal (prisma (fst (process_permission f p (st, ids)))) = journal (prisma st)"
    and "processedPermissions (fst (process_permission f p (st, ids))) = processedPermissions st"
  using assms by (auto simp: process_permission_def)

lemma process_permission_once: "once_ok [perm_row_of f p] s (process_permission f p s)"
proof -
  obtain st ids where s: "s = (st, ids)" by (cases s)
  show ?thesis
  proof (cases "sp_id p \<in> ids")
    case True
    then show ?thesis using once_ok_admin [of st st ids] by (auto simp: s process_permission_seen once_ok_def)
  next
    case False
    show ?thesis
    proof (cases "tx_failed (prisma st) \<or> (\<exists>e. write_perm (prisma st) (perm_row_of f p) = Inl e)")
      case True
      note u = process_permission_unwritten [OF False True]
      have "once_ok [] (st, ids) (fst (process_permission f p (st, ids)), ids)"
        using u(2,3) by (intro once_ok_admin) simp_all
      then have "once_ok [] (st, ids) (process_permission f p (st, ids))"
        using u(1) by (metis prod.collapse)
      then show ?thesis
        using u(1) by (auto simp: s once_ok_def)
    next
      case live: False
      then obtain db where Inr: "write_perm (prisma st) (perm_row_of f p) = Inr db"
        by (cases "write_perm (prisma st) (perm_row_of f p)") auto
      have nf: "\<not> tx_failed (prisma st)" using live by simp
      obtain W where W: "journal db = journal (prisma st) @ W"
        "\<And>i. writes_to i W \<le> (if i = sp_id p then 1 else 0)"
        using write_perm_journal [OF Inr] by auto
      have d: "insert (sp_id p) ids - ids = {sp_id p}" using False by auto
      have "\<exists>W. journal db = journal (prisma st) @ W \<and>
          (\<forall>i. writes_to i W \<le> (if i \<in> insert (sp_id p) ids - ids then 1 else 0))"
        using W unfolding d by (intro exI [of _ W]) simp
      then show ?thesis
        using False Inr d nf by (simp add: s process_permission_success once_ok_def) blast
    qed
  qed
qed

lemma once_ok_finite: "once_ok occs s s' \<Longrightarrow> finite (snd s) \<Longrightarrow> finite (snd s')"
  unfolding once_ok_def by (auto intro: finite_subset [of "snd s'" "snd s \<union> pr_id ` set occs"])

lemma once_ok_trans':
  assumes "once_ok xs s s1" "once_ok ys s1 s2" "finite (snd s)"
  shows "once_ok (xs @ ys) s s2"
  using assms once_ok_finite by (blast intro: once_ok_trans)

lemma fold_process_permission_once:
  "finite (snd s) \<Longrightarrow> once_ok (map (perm_row_of f) ps) s (fold (process_permission f) ps s)"
proof (induction ps arbitrary: s)
  case Nil
  show ?case by (simp add: once_ok_refl)
next
  case (Cons p ps)
  have 1: "once_ok [perm_row_of f p] s (process_permission f p s)"
    by (rule process_permission_once)
  then have "finite (snd (process_permission f p s))"
    using Cons.prems by (rule once_ok_finite)
  then have 2: "once_ok (map (perm_row_of f) ps) (process_permission f p s)
      (fold (process_permission f) ps (process_permission f p s))"
    by (rule Cons.IH)
  have "once_ok ([perm_row_of f p] @ map (perm_row_of f) ps) s
      (fold (process_permission f) ps (process_permission f p s))"
    using 1 2 Cons.prems by (rule once_ok_trans')
  then show ?case by simp
qed

lemma sync_file_permissions_once:
  assumes "finite (snd s)"
  shows "once_ok (listed_rows d [snd entry]) s (sync_file_permissions d n entry s)"
proof -
  obtain st ids where s: "s = (st, ids)" by (cases s)
  have fin: "finite ids" using assms by (simp add: s)
  show ?thesis
  proof (cases "permissions_list d (snd entry)")
    case None
    have "once_ok [] (st, ids) (st\<lparr>errors := errors st + 1\<rparr>, ids)"
      by (rule once_ok_admin) simp_all
    then show ?thesis
      by (simp add: s sync_file_permissions_None [OF None] listed_rows_def None)
  next
    case (Some ps)
    let ?st0 = "tx_begin (st\<lparr>totalPermissions := totalPermissions st + length ps\<rparr>)"
    let ?s1 = "fold (process_permission (snd entry)) ps (?st0, ids)"
    let ?st2 = "broadcastProgress (permission_event (fst entry) n) (tx_commit (fst ?s1))"
    have a: "once_ok [] (st, ids) (?st0, ids)"
      by (rule once_ok_admin) simp_all
    have b: "once_ok (map (perm_row_of (snd entry)) ps) (?st0, ids) ?s1"
      using fin by (intro fold_process_permission_once) simp
    have "once_ok [] (fst ?s1, snd ?s1) (?st2, snd ?s1)"
      by (rule once_ok_admin) simp_all
    then have c: "once_ok [] ?s1 (?st2, snd ?s1)" by simp
    have f0: "finite (snd (?st0, ids))" "finite (snd (st, ids))" using fin by simp_all
    have bc: "once_ok (map (perm_row_of (snd entry)) ps @ []) (?st0, ids) (?st2, snd ?s1)"
      using b c f0(1) by (rule once_ok_trans')
    have "once_ok ([] @ (map (perm_row_of (snd entry)) ps @ [])) (st, ids) (?st2, snd ?s1)"
      using a bc f0(2) by (rule once_ok_trans')
    then show ?thesis
      by (simp add: s sync_file_permissions_Some [OF Some] listed_rows_def Some)
  qed
qed

lemma fold_sync_file_permissions_once:
  "finite (snd s) \<Longrightarrow>
   once_ok (listed_rows d fs) s (fold (sync_file_permissions d n) (enumerate k fs) s)"
proof (induction fs arbitrary: k s)
  case Nil
  show ?case by (simp add: once_ok_refl listed_rows_def)
next
  case (Cons f fs)
  have 1: "once_ok (listed_rows d [f]) s (sync_file_permissions d n (k, f) s)"
    using sync_file_permissions_once [OF Cons.prems, of d "(k, f)" n] by simp
  then have "finite (snd (sync_file_permissions d n (k, f) s))"
    using Cons.prems by (rule once_ok_finite)
  then have 2: "once_ok (listed_rows d fs) (sync_file_permissions d n (k, f) s)
      (fold (sync_file_permissions d n) (enumerate (Suc k) fs) (sync_file_permissions d n (k, f) s))"
    by (rule Cons.IH)
  have "once_ok (listed_rows d [f] @ listed_rows d fs) s
      (fold (sync_file_permissions d n) (enumerate (Suc k) fs) (sync_file_permissions d n (k, f) s))"
    using 1 2 Cons.prems by (rule once_ok_trans')
  then show ?case by (simp add: listed_rows_Cons [of d f fs])
qed

text \<open>
  Claim C9 (permissions deduplicated within a run), as stated: every occurrence of a
  permission id after the first is skipped, without an error increment. When the write of
  the first occurrence throws, the id is not recorded as processed, and the second
  occurrence is tried again: it adds a second error.
\<close>

theorem grant_deduplication_counterexample:
  "errors (fst (process_permission ''F1'' link_grant (new_service refusing_db, {}))) = 1
   \<and> errors (fst (process_permission ''F2'' link_grant
         (process_permission ''F1'' link_grant (new_service refusing_db, {})))) = 2
   \<and> errors (syncAllPermissions shared_drive (new_service refusing_db)) = 2"
  by code_simp

text \<open>
  Claim C9, amended. A permission whose id has already been processed in this run
  (created, updated or found unchanged) is skipped: nothing is created or updated, no
  error is counted and \<open>processedPermissions\<close> stays. An id is recorded as processed only
  when its processing did not throw; an occurrence whose write throws counts one error
  and leaves the id unrecorded, and so does every occurrence that comes after a refused
  write in the same transaction. So in one run each permission id is written at most
  once, and \<open>processedPermissions\<close> grows by at most the number of distinct ids listed.
\<close>

theorem grant_processed_once:
  "(sp_id p \<in> ids \<longrightarrow> process_permission f p (st, ids) = (st, ids))
   \<and> (sp_id p \<notin> ids \<and> \<not> tx_failed (prisma st)
        \<and> write_perm (prisma st) (perm_row_of f p) = Inr db \<longrightarrow>
        process_permission f p (st, ids) =
          (st\<lparr>prisma := db, processedPermissions := processedPermissions st + 1\<rparr>,
           insert (sp_id p) ids))
   \<and> (sp_id p \<notin> ids \<and> \<not> tx_failed (prisma st)
        \<and> write_perm (prisma st) (perm_row_of f p) = Inl e \<longrightarrow>
        process_permission f p (st, ids) =
          (st\<lparr>errors := errors st + 1, prisma := refuse e (prisma st)\<rparr>, ids))
   \<and> (sp_id p \<notin> ids \<and> tx_failed (prisma st) \<longrightarrow>
        process_permission f p (st, ids) = (st\<lparr>errors := errors st + 1\<rparr>, ids))
   \<and> (\<exists>W. journal (prisma (syncAllPermissions d st)) = journal (prisma st) @ W
          \<and> (\<forall>i. writes_to i W \<le> 1))
   \<and> processedPermissions (syncAllPermissions d st) \<le>
       processedPermissions st + card (pr_id ` set (listed_rows d (file_ids (prisma st))))"
proof -
  let ?fs = "file_ids (prisma st)"
  let ?s = "(st\<lparr>totalPermissions := 0\<rparr>, {}::string set)"
  let ?s' = "fold (sync_file_permissions d (length ?fs)) (enumerate 0 ?fs) ?s"
  have ok: "once_ok (listed_rows d ?fs) ?s ?s'"
    by (rule fold_sync_file_permissions_once) simp
  then obtain W where W: "journal (prisma (fst ?s')) = journal (prisma st) @ W"
    "\<And>i. writes_to i W \<le> (if i \<in> snd ?s' - {} then 1 else 0)"
    unfolding once_ok_def by auto
  have "writes_to i W \<le> 1" for i using W(2) [of i] by (auto split: if_splits)
  then have j: "\<exists>W. journal (prisma (syncAllPermissions d st)) = journal (prisma st) @ W
          \<and> (\<forall>i. writes_to i W \<le> 1)"
    using W(1) by (auto simp: syncAllPermissions_fold)
  have sub: "snd ?s' \<subseteq> pr_id ` set (listed_rows d ?fs)"
    using ok by (simp add: once_ok_def)
  then have "card (snd ?s') \<le> card (pr_id ` set (listed_rows d ?fs))"
    by (intro card_mono) simp_all
  moreover have "processedPermissions (fst ?s') = processedPermissions st + card (snd ?s')"
    using ok by (simp add: once_ok_def)
  ultimately have c: "processedPermissions (syncAllPermissions d st) \<le>
       processedPermissions st + card (pr_id ` set (listed_rows d ?fs))"
    by (simp add: syncAllPermissions_fold)
  have 1: "sp_id p \<in> ids \<longrightarrow> process_permission f p (st, ids) = (st, ids)"
    by (simp add: process_permission_seen)
  have 2: "sp_id p \<notin> ids \<and> \<not> tx_failed (prisma st)
        \<and> write_perm (prisma st) (perm_row_of f p) = Inr db \<longrightarrow>
        process_permission f p (st, ids) =
          (st\<lparr>prisma := db, processedPermissions := processedPermissions st + 1\<rparr>,
           insert (sp_id p) ids)"
    by (simp add: process_permission_success)
  have 3: "sp_id p \<notin> ids \<and> \<not> tx_failed (prisma st)
        \<and> write_perm (prisma st) (perm_row_of f p) = Inl e \<longrightarrow>
        process_permission f p (st, ids) =
          (st\<lparr>errors := errors st + 1, prisma := refuse e (prisma st)\<rparr>, ids)"
    by (simp add: process_permission_failure)
  have 4: "sp_id p \<notin> ids \<and> tx_failed (prisma st) \<longrightarrow>
        process_permission f p (st, ids) = (st\<lparr>errors := errors st + 1\<rparr>, ids)"
    by (simp add: process_permission_failed)
  from 1 2 3 4 j c show ?thesis by - (intro conjI; assumption)
qed

theorem grant_processed_once_witness:
  "process_permission ''F2'' link_grant (new_service two_files_db, {''anyoneWithLink''}) =
     (new_service two_files_db, {''anyoneWithLink''})
   \<and> process_permission ''F1'' link_grant (new_service two_files_db, {}) =
       ((new_service two_files_db)
          \<lparr>prisma := record_entry (PermCreated ''anyoneWithLink'')
             (two_files_db\<lparr>drivePermission := [perm_row_of ''F1'' link_grant]\<rparr>),
           processedPermissions := 1\<rparr>,
        {''anyoneWithLink''})
   \<and> process_permission ''F1'' link_grant (new_service refusing_db, {}) =
       ((new_service refusing_db)\<lparr>errors := 1\<rparr>, {})
   \<and> process_permission ''F1'' link_grant (tx_begin (new_service refusing_db), {}) =
       ((tx_begin (new_service refusing_db))
          \<lparr>errors := 1, prisma := (prisma (tx_begin (new_service refusing_db)))\<lparr>tx_failed := True\<rparr>\<rparr>,
        {})
   \<and> process_permission ''F2'' link_grant
         (process_permission ''F1'' link_grant (tx_begin (new_service refusing_db), {})) =
       ((tx_begin (new_service refusing_db))
          \<lparr>errors := 2, prisma := (prisma (tx_begin (new_service refusing_db)))\<lparr>tx_failed := True\<rparr>\<rparr>,
        {})
   \<and> journal (prisma (syncAllPermissions shared_drive (new_service two_files_db))) =
       [TxBegin, PermCreated ''anyoneWithLink'', TxCommit, TxBegin, TxCommit]
   \<and> totalPermissions (syncAllPermissions shared_drive (new_service two_files_db)) = 2
   \<and> processedPermissions (syncAllPermissions shared_drive (new_service two_files_db)) = 1"
proof -
  let ?st = "new_service two_files_db"
  let ?db = "record_entry (PermCreated ''anyoneWithLink'')
             (two_files_db\<lparr>drivePermission := [perm_row_of ''F1'' link_grant]\<rparr>)"
  let ?rt = "tx_begin (new_service refusing_db)"
  let ?ft = "?rt\<lparr>errors := 1, prisma := (prisma ?rt)\<lparr>tx_failed := True\<rparr>\<rparr>"
  have a: "sp_id link_grant \<in> {''anyoneWithLink''}" "sp_id link_grant \<notin> {}"
    by (simp_all add: link_grant_def)
  have live: "\<not> tx_failed (prisma ?st)" "\<not> tx_failed (prisma (new_service refusing_db))"
    "\<not> tx_failed (prisma ?rt)" "tx_failed (prisma ?ft)"
    by (simp_all add: new_service_def two_files_db_def refusing_db_def empty_db_def)
  have w: "write_perm (prisma ?st) (perm_row_of ''F1'' link_grant) = Inr ?db"
    by (simp add: write_perm_cases findUnique_perm_def new_service_def two_files_db_def
          empty_db_def file_ids_def row_A_def) (simp add: link_grant_def)
  have r: "write_perm (prisma (new_service refusing_db)) (perm_row_of ''F1'' link_grant) =
      Inl Rejected"
    by (simp add: write_perm_cases findUnique_perm_def new_service_def refusing_db_def
          empty_db_def)
  have rt: "write_perm (prisma ?rt) (perm_row_of ''F1'' link_grant) = Inl Rejected"
    by (simp add: write_perm_cases findUnique_perm_def new_service_def refusing_db_def
          empty_db_def)
  have rf: "refuse Rejected (prisma (new_service refusing_db)) = prisma (new_service refusing_db)"
    "refuse Rejected (prisma ?rt) = (prisma ?rt)\<lparr>tx_failed := True\<rparr>"
    by (simp_all add: refuse_def new_service_def refusing_db_def empty_db_def)
  have j: "journal (prisma (syncAllPermissions shared_drive ?st)) =
       [TxBegin, PermCreated ''anyoneWithLink'', TxCommit, TxBegin, TxCommit]"
    by code_simp
  have t: "totalPermissions (syncAllPermissions shared_drive ?st) = 2" by code_simp
  have c: "card (pr_id ` set (listed_rows shared_drive (file_ids (prisma ?st)))) = 1"
    by (simp add: listed_rows_def shared_drive_def new_service_def two_files_db_def empty_db_def
          file_ids_def)
  have p0: "processedPermissions ?st = 0" "errors (new_service refusing_db) = 0"
    "errors ?rt = 0" "errors ?ft = 1"
    by (simp_all add: new_service_def)
  have lo: "1 \<le> processedPermissions (syncAllPermissions shared_drive ?st)" by code_simp
  note g1 = grant_processed_once [where p = link_grant and ids = "{''anyoneWithLink''}"
      and f = "''F2''" and st = ?st and d = shared_drive and db = ?db and e = Rejected,
      THEN conjunct1]
  note g2 = grant_processed_once [where p = link_grant and ids = "{}"
      and f = "''F1''" and st = ?st and d = shared_drive and db = ?db and e = Rejected]
  note g3 = grant_processed_once [where p = link_grant and ids = "{}"
      and f = "''F1''" and st = "new_service refusing_db" and d = shared_drive and db = ?db
      and e = Rejected, THEN conjunct2, THEN conjunct2, THEN conjunct1]
  note g4 = grant_processed_once [where p = link_grant and ids = "{}"
      and f = "''F1''" and st = ?rt and d = shared_drive and db = ?db and e = Rejected,
      THEN conjunct2, THEN conjunct2, THEN conjunct1]
  note g5 = grant_processed_once [where p = link_grant and ids = "{}"
      and f = "''F2''" and st = ?ft and d = shared_drive and db = ?db and e = Rejected,
      THEN conjunct2, THEN conjunct2, THEN conjunct2, THEN conjunct1]
  have 1: "process_permission ''F2'' link_grant (?st, {''anyoneWithLink''}) =
     (?st, {''anyoneWithLink''})"
    using g1 a by blast
  have "process_permission ''F1'' link_grant (?st, {}) =
       (?st\<lparr>prisma := ?db, processedPermissions := processedPermissions ?st + 1\<rparr>,
        insert (sp_id link_grant) {})"
    using g2 [THEN conjunct2, THEN conjunct1] a(2) w live(1) by blast
  then have 2: "process_permission ''F1'' link_grant (?st, {}) =
       (?st\<lparr>prisma := ?db, processedPermissions := 1\<rparr>, {''anyoneWithLink''})"
    by (simp add: p0 link_grant_def)
  have "process_permission ''F1'' link_grant (new_service refusing_db, {}) =
       ((new_service refusing_db)\<lparr>errors := errors (new_service refusing_db) + 1,
          prisma := refuse Rejected (prisma (new_service refusing_db))\<rparr>, {})"
    using g3 a(2) r live(2) by blast
  then have 3: "process_permission ''F1'' link_grant (new_service refusing_db, {}) =
       ((new_service refusing_db)\<lparr>errors := 1\<rparr>, {})"
    by (simp add: rf(1) p0)
  have "process_permission ''F1'' link_grant (?rt, {}) =
       (?rt\<lparr>errors := errors ?rt + 1, prisma := refuse Rejected (prisma ?rt)\<rparr>, {})"
    using g4 a(2) rt live(3) by blast
  then have 4: "process_permission ''F1'' link_grant (?rt, {}) = (?ft, {})"
    by (simp only: rf(2) p0(3)) simp
  have "process_permission ''F2'' link_grant (?ft, {}) = (?ft\<lparr>errors := errors ?ft + 1\<rparr>, {})"
    using g5 a(2) live(4) by blast
  then have 5: "process_permission ''F2'' link_grant
         (process_permission ''F1'' link_grant (?rt, {})) =
       (?rt\<lparr>errors := 2, prisma := (prisma ?rt)\<lparr>tx_failed := True\<rparr>\<rparr>, {})"
    by (simp add: 4)
  have "processedPermissions (syncAllPermissions shared_drive ?st) \<le>
      processedPermissions ?st + card (pr_id ` set (listed_rows shared_drive (file_ids (prisma ?st))))"
    using g2 by blast
  then have "processedPermissions (syncAllPermissions shared_drive ?st) \<le> 1"
    by (simp only: c p0)
  then have 6: "processedPermissions (syncAllPermissions shared_drive ?st) = 1"
    using lo by simp
  from 1 2 3 4 5 j t 6 show ?thesis by - (intro conjI; assumption)
qed
section \<open>A second run against an unchanged drive\<close>

subsection \<open>What the first run persists\<close>

lemma fetch_loop_all_pages:
  "fst (fetch_loop acc pages st) = map_option ((@) acc) (all_pages pages)"
proof (induction pages arbitrary: acc st)
  case (NextPage files rest)
  then show ?case by (cases "all_pages rest") simp_all
qed simp_all

lemma fetched_fst: "fst (fetched d st) = all_pages (files_listing d)"
  by (cases "all_pages (files_listing d)") (simp_all add: fetched_def fetch_loop_all_pages)

lemma fetched_prisma: "prisma (snd (fetched d st)) = prisma st"
  by (simp add: fetched_def counted_def fetch_loop_fields getTotalFileCount_snd count_loop_fields)

subsection \<open>A run that finds everything persisted\<close>

lemma quiet_refl: "quiet st st"
  by (simp add: quiet_def)

lemma quiet_trans: "quiet st st1 \<Longrightarrow> quiet st1 st2 \<Longrightarrow> quiet st st2"
  by (simp add: quiet_def)

lemma quiet_same_prisma: "prisma st' = prisma st \<Longrightarrow> quiet st st'"
  by (simp add: quiet_def)

lemma quiet_transaction:
  "prisma st' = commit_transaction (begin_transaction (prisma st)) \<Longrightarrow> quiet st st'"
  by (simp add: quiet_def commit_transaction_kept)

lemma quiet_findUnique:
  "quiet st st' \<Longrightarrow> findUnique_file (prisma st') i = findUnique_file (prisma st) i"
  "quiet st st' \<Longrightarrow> findUnique_perm (prisma st') i = findUnique_perm (prisma st) i"
  by (simp_all add: quiet_def findUnique_file_def findUnique_perm_def)

text \<open>A record that is found as it is leaves the database alone.\<close>

lemma process_file_quiet:
  assumes "\<not> tx_failed (prisma st)"
    and "findUnique_file (prisma st) (fd_id x) = Some (file_row_of x)"
  shows "prisma (process_file x st) = prisma st"
proof -
  have "fr_id (file_row_of x) = fd_id x" by (simp add: file_row_of_def)
  then have "write_file (prisma st) (file_row_of x) = Inr (prisma st)"
    using assms(2) by (intro write_file_skip) simp
  then show ?thesis using assms(1) by (simp add: process_file_success)
qed

lemma fold_process_file_quiet:
  "\<not> tx_failed (prisma st) \<Longrightarrow>
   (\<forall>x\<in>set xs. findUnique_file (prisma st) (fd_id x) = Some (file_row_of x)) \<Longrightarrow>
   prisma (fold process_file xs st) = prisma st"
proof (induction xs arbitrary: st)
  case Nil
  show ?case by simp
next
  case (Cons x xs)
  have 1: "prisma (process_file x st) = prisma st"
    using Cons.prems by (intro process_file_quiet) simp_all
  have "prisma (fold process_file xs (process_file x st)) = prisma (process_file x st)"
    using Cons.prems by (intro Cons.IH) (simp_all add: 1)
  then show ?case by (simp add: 1)
qed

lemma process_batch_quiet:
  assumes "\<forall>x\<in>set b. findUnique_file (prisma st) (fd_id x) = Some (file_row_of x)"
  shows "quiet st (process_batch b st)"
proof -
  have "prisma (fold process_file b (tx_begin st)) = prisma (tx_begin st)"
    using assms by (intro fold_process_file_quiet) simp_all
  then show ?thesis by (intro quiet_transaction) (simp add: process_batch_def)
qed

lemma fold_process_batch_quiet:
  "(\<forall>x\<in>set (concat bs). findUnique_file (prisma st) (fd_id x) = Some (file_row_of x)) \<Longrightarrow>
   quiet st (fold process_batch bs st)"
proof (induction bs arbitrary: st)
  case Nil
  show ?case by (simp add: quiet_refl)
next
  case (Cons b bs)
  have 1: "quiet st (process_batch b st)" using Cons.prems by (intro process_batch_quiet) simp
  have "\<forall>x\<in>set (concat bs). findUnique_file (prisma (process_batch b st)) (fd_id x) =
      Some (file_row_of x)"
    using Cons.prems quiet_findUnique(1) [OF 1] by simp
  then have "quiet (process_batch b st) (fold process_batch bs (process_batch b st))"
    by (rule Cons.IH)
  then show ?case using 1 by (simp add: quiet_trans)
qed

lemma processFilesBatch_quiet:
  "(\<forall>x\<in>set xs. findUnique_file (prisma st) (fd_id x) = Some (file_row_of x)) \<Longrightarrow>
   quiet st (processFilesBatch xs st)"
  unfolding processFilesBatch_def
  by (rule fold_process_batch_quiet) (simp add: make_batches_concat)

lemma process_permission_quiet:
  assumes "\<not> tx_failed (prisma (fst s))"
    and "persisted_first (perm_row_of f p # rest) (snd s) (prisma (fst s))"
  shows "prisma (fst (process_permission f p s)) = prisma (fst s)"
    and "persisted_first rest (snd (process_permission f p s)) (prisma (fst s))"
proof -
  obtain st ids where s: "s = (st, ids)" by (cases s)
  have all: "prisma (fst (process_permission f p s)) = prisma (fst s)
      \<and> persisted_first rest (snd (process_permission f p s)) (prisma (fst s))"
  proof (cases "sp_id p \<in> ids")
    case True
    have "persisted_first rest ids (prisma st)"
      using assms(2) True unfolding persisted_first_def s by (auto split: if_splits)
    then show ?thesis using True by (simp add: s process_permission_seen)
  next
    case False
    have live: "\<not> tx_failed (prisma st)" using assms(1) by (simp add: s)
    have "findUnique_perm (prisma st) (sp_id p) = Some (perm_row_of f p)"
      using assms(2) False unfolding persisted_first_def s by simp
    then have w: "write_perm (prisma st) (perm_row_of f p) = Inr (prisma st)"
      by (intro write_perm_skip) simp
    have "persisted_first rest (insert (sp_id p) ids) (prisma st)"
      using assms(2) unfolding persisted_first_def s by (auto split: if_splits)
    then show ?thesis
      by (simp add: s process_permission_success [OF False live w])
  qed
  then show "prisma (fst (process_permission f p s)) = prisma (fst s)"
    and "persisted_first rest (snd (process_permission f p s)) (prisma (fst s))"
    by blast+
qed

lemma fold_process_permission_quiet:
  "\<not> tx_failed (prisma (fst s)) \<Longrightarrow>
   persisted_first (map (perm_row_of f) ps @ rest) (snd s) (prisma (fst s)) \<Longrightarrow>
   prisma (fst (fold (process_permission f) ps s)) = prisma (fst s)
   \<and> persisted_first rest (snd (fold (process_permission f) ps s)) (prisma (fst s))"
proof (induction ps arbitrary: s)
  case Nil
  then show ?case by simp
next
  case (Cons p ps)
  let ?s1 = "process_permission f p s"
  have a: "persisted_first (perm_row_of f p # (map (perm_row_of f) ps @ rest)) (snd s) (prisma (fst s))"
    using Cons.prems by simp
  note q = process_permission_quiet [OF Cons.prems(1) a]
  have "prisma (fst (fold (process_permission f) ps ?s1)) = prisma (fst ?s1)
   \<and> persisted_first rest (snd (fold (process_permission f) ps ?s1)) (prisma (fst ?s1))"
    using Cons.prems(1) q by (intro Cons.IH) simp_all
  then show ?case by (simp add: q(1))
qed

lemma persisted_first_cong:
  "drivePermission db' = drivePermission db \<Longrightarrow>
   persisted_first occs seen db' = persisted_first occs seen db"
  by (simp add: persisted_first_def findUnique_perm_def)

lemma persisted_first_quiet:
  "quiet st st' \<Longrightarrow> persisted_first occs seen (prisma st') = persisted_first occs seen (prisma st)"
  by (rule persisted_first_cong) (simp add: quiet_def)

lemma sync_file_permissions_quiet:
  assumes "persisted_first (listed_rows d [snd file] @ rest) (snd s) (prisma (fst s))"
  shows "quiet (fst s) (fst (sync_file_permissions d n file s))
     \<and> persisted_first rest (snd (sync_file_permissions d n file s))
          (prisma (fst (sync_file_permissions d n file s)))"
proof -
  obtain st ids where s: "s = (st, ids)" by (cases s)
  show ?thesis
  proof (cases "permissions_list d (snd file)")
    case None
    then have "listed_rows d [snd file] = []" by (simp add: listed_rows_def)
    then have "persisted_first rest ids (prisma st)" using assms by (simp add: s)
    then show ?thesis
      by (simp add: s sync_file_permissions_None [OF None] quiet_def persisted_first_def
            findUnique_perm_def)
  next
    case (Some ps)
    let ?st0 = "tx_begin (st\<lparr>totalPermissions := totalPermissions st + length ps\<rparr>)"
    let ?s1 = "fold (process_permission (snd file)) ps (?st0, ids)"
    have q0: "quiet st ?st0" by (simp add: quiet_def)
    have "listed_rows d [snd file] = map (perm_row_of (snd file)) ps"
      using Some by (simp add: listed_rows_def)
    then have "persisted_first (map (perm_row_of (snd file)) ps @ rest) ids (prisma st)"
      using assms by (simp add: s)
    then have "persisted_first (map (perm_row_of (snd file)) ps @ rest) (snd (?st0, ids))
        (prisma (fst (?st0, ids)))"
      using persisted_first_quiet [OF q0] by simp
    moreover have "\<not> tx_failed (prisma (fst (?st0, ids)))" by simp
    ultimately have f: "prisma (fst ?s1) = prisma (fst (?st0, ids))
        \<and> persisted_first rest (snd ?s1) (prisma (fst (?st0, ids)))"
      by (intro fold_process_permission_quiet)
    let ?st2 = "broadcastProgress (permission_event (fst file) n) (tx_commit (fst ?s1))"
    have "prisma ?st2 = commit_transaction (begin_transaction (prisma st))"
      using f by simp
    then have a: "quiet st ?st2" by (rule quiet_transaction)
    have "persisted_first rest (snd ?s1) (prisma st)"
      using f persisted_first_quiet [OF q0] by simp
    then have b: "persisted_first rest (snd ?s1) (prisma ?st2)"
      using persisted_first_quiet [OF a] by simp
    show ?thesis
      using a b by (simp add: s sync_file_permissions_Some [OF Some])
  qed
qed

lemma fold_sync_file_permissions_quiet:
  "persisted_first (listed_rows d fs @ rest) (snd s) (prisma (fst s)) \<Longrightarrow>
   quiet (fst s) (fst (fold (sync_file_permissions d n) (enumerate k fs) s))
   \<and> persisted_first rest (snd (fold (sync_file_permissions d n) (enumerate k fs) s))
        (prisma (fst (fold (sync_file_permissions d n) (enumerate k fs) s)))"
proof (induction fs arbitrary: k s)
  case Nil
  then show ?case by (simp add: listed_rows_def quiet_refl)
next
  case (Cons f fs)
  let ?s1 = "sync_file_permissions d n (k, f) s"
  have "persisted_first (listed_rows d [snd (k, f)] @ (listed_rows d fs @ rest)) (snd s)
      (prisma (fst s))"
    using Cons.prems listed_rows_Cons [of d f fs] by simp
  then have 1: "quiet (fst s) (fst ?s1)
      \<and> persisted_first (listed_rows d fs @ rest) (snd ?s1) (prisma (fst ?s1))"
    by (rule sync_file_permissions_quiet)
  then have "quiet (fst ?s1) (fst (fold (sync_file_permissions d n) (enumerate (Suc k) fs) ?s1))
   \<and> persisted_first rest (snd (fold (sync_file_permissions d n) (enumerate (Suc k) fs) ?s1))
        (prisma (fst (fold (sync_file_permissions d n) (enumerate (Suc k) fs) ?s1)))"
    by (intro Cons.IH) simp
  then show ?case using 1 by (auto intro: quiet_trans)
qed

lemma syncAllPermissions_quiet:
  assumes "persisted_first (listed_rows d (file_ids (prisma st))) {} (prisma st)"
  shows "quiet st (syncAllPermissions d st)"
proof -
  let ?s = "(st\<lparr>totalPermissions := 0\<rparr>, {}::string set)"
  have "persisted_first (listed_rows d (file_ids (prisma st)) @ []) (snd ?s) (prisma (fst ?s))"
    using assms by simp
  then have "quiet (fst ?s) (fst (fold (sync_file_permissions d (length (file_ids (prisma st))))
      (enumerate 0 (file_ids (prisma st))) ?s))"
    using fold_sync_file_permissions_quiet by blast
  then show ?thesis by (simp add: syncAllPermissions_fold quiet_def)
qed

subsection \<open>Cleanup\<close>

lemma cleanupOrphanedData_fields:
  "driveFile (prisma (cleanupOrphanedData st)) = driveFile (prisma st)"
  "rejectsFile (prisma (cleanupOrphanedData st)) = rejectsFile (prisma st)"
  "rejectsPerm (prisma (cleanupOrphanedData st)) = rejectsPerm (prisma st)"
  "filter is_write (journal (prisma (cleanupOrphanedData st))) = filter is_write (journal (prisma st))"
  by (simp_all add: cleanupOrphanedData_def Let_def deleteMany_perm_def)

lemma cleanupOrphanedData_none:
  "perms_fileId_notIn (prisma st) (file_ids (prisma st)) = [] \<Longrightarrow> cleanupOrphanedData st = st"
  by (simp add: cleanupOrphanedData_def Let_def)

lemma cleanupOrphanedData_clean:
  "perms_fileId_notIn (prisma (cleanupOrphanedData st)) (file_ids (prisma (cleanupOrphanedData st))) = []"
proof (cases "perms_fileId_notIn (prisma st) (file_ids (prisma st)) = []")
  case True
  then show ?thesis by (simp add: cleanupOrphanedData_none)
next
  case False
  then show ?thesis
    by (auto simp: cleanupOrphanedData_def Let_def deleteMany_perm_def perms_fileId_notIn_def
          file_ids_def filter_empty_conv)
qed

lemma find_Some_member: "find P xs = Some r \<Longrightarrow> r \<in> set xs \<and> P r"
  by (induction xs) (auto split: if_splits)

lemma cleanupOrphanedData_lookup:
  assumes d: "distinct (map pr_id (drivePermission (prisma st)))"
    and l: "findUnique_perm (prisma st) i = Some r"
    and f: "pr_fileId r \<in> set (file_ids (prisma st))"
  shows "findUnique_perm (prisma (cleanupOrphanedData st)) i = Some r"
proof (cases "perms_fileId_notIn (prisma st) (file_ids (prisma st)) = []")
  case True
  then show ?thesis using l by (simp add: cleanupOrphanedData_none)
next
  case False
  let ?orph = "perms_fileId_notIn (prisma st) (file_ids (prisma st))"
  have r: "r \<in> set (drivePermission (prisma st))" "pr_id r = i"
    using find_Some_member [of "\<lambda>r. pr_id r = i" "drivePermission (prisma st)" r] l
    by (simp_all add: findUnique_perm_def)
  have "pr_id r \<notin> set (map pr_id ?orph)"
  proof
    assume "pr_id r \<in> set (map pr_id ?orph)"
    then obtain p where p: "p \<in> set (drivePermission (prisma st))"
        "pr_fileId p \<notin> set (file_ids (prisma st))" "pr_id p = pr_id r"
      by (auto simp: perms_fileId_notIn_def)
    have "inj_on pr_id (set (drivePermission (prisma st)))" using d by (simp add: distinct_map)
    then have "p = r" using p(1,3) r(1) by (auto dest: inj_onD)
    then show False using p(2) f by simp
  qed
  then have "find (\<lambda>r. pr_id r = i)
      (filter (\<lambda>p. pr_id p \<notin> set (map pr_id ?orph)) (drivePermission (prisma st))) = Some r"
    using l by (intro find_filter_keep) (simp_all add: findUnique_perm_def)
  then show ?thesis
    using False by (simp add: cleanupOrphanedData_def Let_def deleteMany_perm_def findUnique_perm_def)
qed

subsection \<open>The whole run, twice\<close>

lemma to_drive_file_id [simp]: "fd_id (to_drive_file x) = sf_id x"
  by (simp add: to_drive_file_def)

lemma file_ids_quiet: "quiet st st' \<Longrightarrow> file_ids (prisma st') = file_ids (prisma st)"
  by (simp add: quiet_def file_ids_def)

lemma startSync_quiet:
  assumes pages: "all_pages (files_listing d) = Some fs"
    and files: "\<forall>x\<in>set fs. findUnique_file (prisma st) (sf_id x) = Some (file_row_of (to_drive_file x))"
    and perms: "persisted_first (listed_rows d (file_ids (prisma st))) {} (prisma st)"
    and clean: "perms_fileId_notIn (prisma st) (file_ids (prisma st)) = []"
  shows "quiet st (snd (startSync d st))"
    and "fst (startSync d st) = SyncComplete (getSyncStats (snd (startSync d st)))"
proof -
  let ?s1 = "snd (fetched d st)"
  let ?s2 = "processFilesBatch (map to_drive_file fs) ?s1"
  let ?s3 = "syncAllPermissions d ?s2"
  have run: "startSync d st =
      (SyncComplete (getSyncStats (cleanupOrphanedData ?s3)), cleanupOrphanedData ?s3)"
    by (rule startSync_complete) (simp add: fetched_fst pages)
  have q1: "quiet st ?s1" by (rule quiet_same_prisma) (rule fetched_prisma)
  have "\<forall>x\<in>set (map to_drive_file fs).
      findUnique_file (prisma ?s1) (fd_id x) = Some (file_row_of x)"
    using files by (simp add: fetched_prisma)
  then have "quiet ?s1 ?s2" by (rule processFilesBatch_quiet)
  with q1 have q2: "quiet st ?s2" by (rule quiet_trans)
  have "persisted_first (listed_rows d (file_ids (prisma ?s2))) {} (prisma ?s2)"
    using perms by (simp add: file_ids_quiet [OF q2] persisted_first_quiet [OF q2])
  then have "quiet ?s2 ?s3" by (rule syncAllPermissions_quiet)
  with q2 have q3: "quiet st ?s3" by (rule quiet_trans)
  have "perms_fileId_notIn (prisma ?s3) (file_ids (prisma ?s3)) = []"
    using clean q3 by (simp add: quiet_def perms_fileId_notIn_def file_ids_def)
  then have "cleanupOrphanedData ?s3 = ?s3" by (rule cleanupOrphanedData_none)
  then show "quiet st (snd (startSync d st))" using q3 by (simp add: run)
  show "fst (startSync d st) = SyncComplete (getSyncStats (snd (startSync d st)))"
    by (simp add: run)
qed

lemma startSync_persists:
  assumes pages: "all_pages (files_listing d) = Some fs"
    and ids: "distinct (map sf_id fs)"
    and files: "\<forall>x\<in>set fs. \<not> rejectsFile (prisma st) (file_row_of (to_drive_file x))"
    and grants: "\<And>f ps p. permissions_list d f = Some ps \<Longrightarrow> p \<in> set ps \<Longrightarrow>
                   \<not> rejectsPerm (prisma st) (perm_row_of f p)"
    and keys: "distinct (map pr_id (drivePermission (prisma st)))"
  shows "\<forall>x\<in>set fs. findUnique_file (prisma (snd (startSync d st))) (sf_id x) =
           Some (file_row_of (to_drive_file x))"
    and "persisted_first (listed_rows d (file_ids (prisma (snd (startSync d st))))) {}
           (prisma (snd (startSync d st)))"
    and "perms_fileId_notIn (prisma (snd (startSync d st)))
           (file_ids (prisma (snd (startSync d st)))) = []"
proof -
  let ?xs = "map to_drive_file fs"
  let ?s1 = "snd (fetched d st)"
  let ?s2 = "processFilesBatch ?xs ?s1"
  let ?s3 = "syncAllPermissions d ?s2"
  let ?s4 = "cleanupOrphanedData ?s3"
  let ?occs = "listed_rows d (file_ids (prisma ?s2))"
  let ?s = "(?s2\<lparr>totalPermissions := 0\<rparr>, {}::string set)"
  let ?s' = "fold (sync_file_permissions d (length (file_ids (prisma ?s2))))
      (enumerate 0 (file_ids (prisma ?s2))) ?s"
  have run: "snd (startSync d st) = ?s4"
    using startSync_complete [of d st fs] by (simp add: fetched_fst pages)
  have s3: "?s3 = fst ?s'" by (rule syncAllPermissions_fold)
  have w: "files_written ?xs ?s1 ?s2" by (rule processFilesBatch_written)
  have dx: "distinct (map fd_id ?xs)" using ids by (simp add: comp_def)
  have nx: "\<forall>x\<in>set ?xs. \<not> rejectsFile (prisma ?s1) (file_row_of x)"
    using files by (simp add: fetched_prisma)
  have f2: "\<forall>x\<in>set ?xs. findUnique_file (prisma ?s2) (fd_id x) = Some (file_row_of x)"
    using w dx nx unfolding files_written_def by blast
  have env2: "rejectsPerm (prisma ?s2) = rejectsPerm (prisma st)"
    "drivePermission (prisma ?s2) = drivePermission (prisma st)"
    using w unfolding files_written_def by (simp_all add: fetched_prisma)
  have g: "grants_ok (failed_listings d (file_ids (prisma ?s2))) ?occs ?s ?s'"
    by (rule syncAllPermissions_ok)
  have "\<forall>r\<in>set ?occs. \<not> rejectsPerm (prisma ?s2) r"
    using grants by (auto simp: listed_rows_def env2 split: option.splits dest: sym)
  then have "acceptable ?occs (?s2\<lparr>totalPermissions := 0\<rparr>)" by (rule acceptable_listed)
  then have acc: "acceptable ?occs (fst ?s)" by simp
  have look3: "findUnique_perm (prisma ?s3) i = expected_lookup ?occs {} (prisma ?s2) i" for i
    using grants_okD(4) [OF g acc, of i] by (simp add: s3)
  have df3: "driveFile (prisma ?s3) = driveFile (prisma ?s2)"
    using grants_ok_envD(1) [OF g] by (simp add: s3)
  have k3: "distinct (map pr_id (drivePermission (prisma ?s3)))"
    using grants_ok_envD(7) [OF g] keys by (simp add: s3 env2)
  have df4: "driveFile (prisma ?s4) = driveFile (prisma ?s2)"
    by (simp add: cleanupOrphanedData_fields df3)
  have ids4: "file_ids (prisma ?s4) = file_ids (prisma ?s2)"
    "file_ids (prisma ?s3) = file_ids (prisma ?s2)"
    by (simp_all add: file_ids_def df4 df3)
  show "\<forall>x\<in>set fs. findUnique_file (prisma (snd (startSync d st))) (sf_id x) =
           Some (file_row_of (to_drive_file x))"
    using f2 by (simp add: run findUnique_file_def df4)
  have "findUnique_perm (prisma ?s4) i = Some r"
    if "find (\<lambda>r. pr_id r = i) ?occs = Some r" for i r
  proof -
    have "findUnique_perm (prisma ?s3) i = Some r"
      using that by (simp add: look3 expected_lookup_def)
    moreover have "r \<in> set ?occs" using find_Some_member [OF that] by simp
    then have "pr_fileId r \<in> set (file_ids (prisma ?s3))"
      using listed_rows_fileId [of r d "file_ids (prisma ?s2)"] by (simp add: ids4)
    ultimately show ?thesis using k3 by (intro cleanupOrphanedData_lookup)
  qed
  then show "persisted_first (listed_rows d (file_ids (prisma (snd (startSync d st))))) {}
           (prisma (snd (startSync d st)))"
    by (simp add: run ids4 persisted_first_def)
  show "perms_fileId_notIn (prisma (snd (startSync d st)))
           (file_ids (prisma (snd (startSync d st)))) = []"
    unfolding run by (rule cleanupOrphanedData_clean)
qed

text \<open>
  The streaming service is idempotent. Let a run of it fetch every page, with no file id listed
  twice, and let the store reject none of the rows of that run. Then a second run against
  the same drive, started on the store the first run left, creates nothing and updates
  nothing: both tables come out as they went in and the journal gains no create and no
  update. Every decision of the second run is to skip, for each fetched file and for each
  permission that is checked, that is the first one listed with its id.
\<close>

theorem second_run_skips_everything:
  assumes "all_pages (files_listing d) = Some fs"
    and "distinct (map sf_id fs)"
    and "\<forall>x\<in>set fs. \<not> rejectsFile (prisma st) (file_row_of (to_drive_file x))"
    and "\<And>f ps p. permissions_list d f = Some ps \<Longrightarrow> p \<in> set ps \<Longrightarrow>
           \<not> rejectsPerm (prisma st) (perm_row_of f p)"
    and "distinct (map pr_id (drivePermission (prisma st)))"
    and "prisma st' = prisma (snd (startSync d st))"
  shows "driveFile (prisma (snd (startSync d st'))) = driveFile (prisma st')
     \<and> drivePermission (prisma (snd (startSync d st'))) = drivePermission (prisma st')
     \<and> filter is_write (journal (prisma (snd (startSync d st')))) =
         filter is_write (journal (prisma st'))
     \<and> (\<forall>x\<in>set fs. decide_file (prisma st') (file_row_of (to_drive_file x)) = Skip)
     \<and> (\<forall>i r. find (\<lambda>r. pr_id r = i) (listed_rows d (file_ids (prisma st'))) = Some r \<longrightarrow>
           decide_perm (prisma st') r = Skip)"
proof -
  note first = startSync_persists [OF assms(1-5)]
  have files: "\<forall>x\<in>set fs. findUnique_file (prisma st') (sf_id x) =
      Some (file_row_of (to_drive_file x))"
    using first(1) by (simp add: assms(6))
  have perms: "persisted_first (listed_rows d (file_ids (prisma st'))) {} (prisma st')"
    using first(2) by (simp add: assms(6))
  have clean: "perms_fileId_notIn (prisma st') (file_ids (prisma st')) = []"
    using first(3) by (simp add: assms(6))
  have q: "quiet st' (snd (startSync d st'))"
    using assms(1) files perms clean by (rule startSync_quiet)
  have a: "driveFile (prisma (snd (startSync d st'))) = driveFile (prisma st')"
    and b: "drivePermission (prisma (snd (startSync d st'))) = drivePermission (prisma st')"
    and c: "filter is_write (journal (prisma (snd (startSync d st')))) =
         filter is_write (journal (prisma st'))"
    using q by (simp_all add: quiet_def)
  have id: "fr_id (file_row_of (to_drive_file x)) = sf_id x" for x
    by (simp add: file_row_of_def)
  have d: "\<forall>x\<in>set fs. decide_file (prisma st') (file_row_of (to_drive_file x)) = Skip"
    using files by (simp add: decide_file_eq id)
  have e: "\<forall>i r. find (\<lambda>r. pr_id r = i) (listed_rows d (file_ids (prisma st'))) = Some r \<longrightarrow>
           decide_perm (prisma st') r = Skip"
  proof (intro allI impI)
    fix i r
    assume f: "find (\<lambda>r. pr_id r = i) (listed_rows d (file_ids (prisma st'))) = Some r"
    then have "findUnique_perm (prisma st') i = Some r"
      using perms by (simp add: persisted_first_def)
    moreover have "pr_id r = i" using find_Some_member [OF f] by simp
    ultimately show "decide_perm (prisma st') r = Skip" by (simp add: decide_perm_eq)
  qed
  from a b c d e show ?thesis by - (intro conjI; assumption)
qed

theorem second_run_skips_everything_witness:
  "filter is_write (journal (prisma small_run)) =
     [FileCreated ''F1'', FileCreated ''F2'', FileCreated ''D1'', PermCreated ''g1'',
      PermCreated ''g2'', PermCreated ''g3'', PermCreated ''g4'', PermCreated ''g5'']
   \<and> filter is_write
       (journal (prisma (snd (startSync small_drive (new_service (prisma small_run)))))) =
     [FileCreated ''F1'', FileCreated ''F2'', FileCreated ''D1'', PermCreated ''g1'',
      PermCreated ''g2'', PermCreated ''g3'', PermCreated ''g4'', PermCreated ''g5'']
   \<and> driveFile (prisma (snd (startSync small_drive (new_service (prisma small_run))))) =
       driveFile (prisma small_run)
   \<and> drivePermission (prisma (snd (startSync small_drive (new_service (prisma small_run))))) =
       drivePermission (prisma small_run)
   \<and> map (\<lambda>x. decide_file (prisma small_run) (file_row_of (to_drive_file x))) small_files =
       [Skip, Skip, Skip]"
proof -
  have j: "filter is_write (journal (prisma small_run)) =
     [FileCreated ''F1'', FileCreated ''F2'', FileCreated ''D1'', PermCreated ''g1'',
      PermCreated ''g2'', PermCreated ''g3'', PermCreated ''g4'', PermCreated ''g5'']"
    by code_simp
  have 1: "all_pages (files_listing small_drive) = Some small_files" by code_simp
  have 2: "distinct (map sf_id small_files)" by code_simp
  have 3: "\<forall>x\<in>set small_files.
      \<not> rejectsFile (prisma (new_service empty_db)) (file_row_of (to_drive_file x))"
    by (simp add: new_service_def empty_db_def)
  have 4: "\<not> rejectsPerm (prisma (new_service empty_db)) (perm_row_of f p)" for f p
    by (simp add: new_service_def empty_db_def)
  have 5: "distinct (map pr_id (drivePermission (prisma (new_service empty_db))))"
    by (simp add: new_service_def empty_db_def)
  have 6: "prisma (new_service (prisma small_run)) =
      prisma (snd (startSync small_drive (new_service empty_db)))"
    by (simp add: small_run) (simp add: new_service_def)
  note t = second_run_skips_everything [of small_drive small_files "new_service empty_db"
      "new_service (prisma small_run)", OF 1 2 3 4 5 6]
  have p: "prisma (new_service (prisma small_run)) = prisma small_run"
    by (simp add: new_service_def)
  from t have a: "driveFile (prisma (snd (startSync small_drive (new_service (prisma small_run))))) =
       driveFile (prisma small_run)"
    and b: "drivePermission (prisma (snd (startSync small_drive (new_service (prisma small_run))))) =
       drivePermission (prisma small_run)"
    and c: "filter is_write
       (journal (prisma (snd (startSync small_drive (new_service (prisma small_run)))))) =
       filter is_write (journal (prisma small_run))"
    and d: "\<forall>x\<in>set small_files. decide_file (prisma small_run) (file_row_of (to_drive_file x)) = Skip"
    unfolding p by blast+
  from c j have c': "filter is_write
       (journal (prisma (snd (startSync small_drive (new_service (prisma small_run)))))) =
     [FileCreated ''F1'', FileCreated ''F2'', FileCreated ''D1'', PermCreated ''g1'',
      PermCreated ''g2'', PermCreated ''g3'', PermCreated ''g4'', PermCreated ''g5'']"
    by (rule trans)
  have d': "map (\<lambda>x. decide_file (prisma small_run) (file_row_of (to_drive_file x))) small_files =
       [Skip, Skip, Skip]"
    using d by (simp add: small_files_def)
  from j c' a b d' show ?thesis by - (intro conjI; assumption)
qed

subsection \<open>The one-shot endpoint, synced twice\<close>

lemma link_run:
  "startSync link_drive (new_service empty_db) = (SyncComplete (getSyncStats link_run), link_run)"
proof -
  have "fst (fetched link_drive (new_service empty_db)) = Some link_files"
    by code_simp
  then show ?thesis unfolding link_run_def by (rule startSync_complete)
qed

lemma link_rerun:
  "startSync link_drive (new_service (prisma link_run)) =
     (SyncComplete (getSyncStats link_rerun), link_rerun)"
proof -
  have "fst (fetched link_drive (new_service (prisma link_run))) = Some link_files"
    by (simp add: fetched_fst link_drive_def)
  then show ?thesis unfolding link_rerun_def by (rule startSync_complete)
qed

text \<open>
  Claim C2. Two files carry the permission id \<open>anyoneWithLink\<close>. The one-shot endpoint has
  synced this drive once; synced again with nothing changed, it skips both files and
  updates the permission twice, once for each file that lists it, and reports two updates.
  The streaming service, run twice on the same drive, creates and updates nothing in its
  second run: it keeps the ids it has processed and skips the second listing.
\<close>

theorem oneshot_second_run_updates_shared_permission:
  "fst (POST (Some link_files) (permissions_list link_drive) link_posted) =
     Synced
       \<lparr>rp_files_total = 2,
        rp_files = \<lparr>upserted = 0, updated = 0, skipped = 2, failed = 0\<rparr>,
        rp_permissions_total = 2,
        rp_permissions = \<lparr>upserted = 0, updated = 2, skipped = 0, failed = 0\<rparr>,
        rp_permissions_cleaned = 0,
        rp_integrity = \<lparr>orphanedPermissions = 0, invalidFileReferences = 0, isConsistent = True\<rparr>,
        rp_totalDriveFiles = 2, rp_totalDrivePermissions = 1\<rparr>
   \<and> journal (snd (POST (Some link_files) (permissions_list link_drive) link_posted)) =
       journal link_posted @
       [TxBegin, TxCommit, TxBegin, PermUpdated ''anyoneWithLink'', PermUpdated ''anyoneWithLink'',
        TxCommit]
   \<and> filter is_write (journal (prisma (snd (startSync link_drive (new_service empty_db))))) =
       [FileCreated ''F1'', FileCreated ''F2'', PermCreated ''anyoneWithLink'']
   \<and> filter is_write (journal (prisma (snd (startSync link_drive
         (new_service (prisma (snd (startSync link_drive (new_service empty_db))))))))) =
       [FileCreated ''F1'', FileCreated ''F2'', PermCreated ''anyoneWithLink'']"
proof -
  have 1: "fst (POST (Some link_files) (permissions_list link_drive) link_posted) =
     Synced
       \<lparr>rp_files_total = 2,
        rp_files = \<lparr>upserted = 0, updated = 0, skipped = 2, failed = 0\<rparr>,
        rp_permissions_total = 2,
        rp_permissions = \<lparr>upserted = 0, updated = 2, skipped = 0, failed = 0\<rparr>,
        rp_permissions_cleaned = 0,
        rp_integrity = \<lparr>orphanedPermissions = 0, invalidFileReferences = 0, isConsistent = True\<rparr>,
        rp_totalDriveFiles = 2, rp_totalDrivePermissions = 1\<rparr>"
    by code_simp
  have 2: "journal (snd (POST (Some link_files) (permissions_list link_drive) link_posted)) =
       journal link_posted @
       [TxBegin, TxCommit, TxBegin, PermUpdated ''anyoneWithLink'', PermUpdated ''anyoneWithLink'',
        TxCommit]"
    by code_simp
  have 3: "filter is_write (journal (prisma link_run)) =
       [FileCreated ''F1'', FileCreated ''F2'', PermCreated ''anyoneWithLink'']"
    by code_simp
  have 4: "filter is_write (journal (prisma link_rerun)) =
       [FileCreated ''F1'', FileCreated ''F2'', PermCreated ''anyoneWithLink'']"
    by code_simp
  show ?thesis using 1 2 3 4 by (simp add: link_run link_rerun)
qed

section \<open>Entries that left the drive\<close>

lemma startSync_keeps_files:
  "set (file_ids (prisma st)) \<subseteq> set (file_ids (prisma (snd (startSync d st))))"
proof (cases "fst (fetched d st)")
  case None
  then show ?thesis by (simp add: startSync_failed fetched_prisma)
next
  case (Some fs)
  let ?s1 = "snd (fetched d st)"
  let ?s2 = "processFilesBatch (map to_drive_file fs) ?s1"
  let ?s3 = "syncAllPermissions d ?s2"
  have "files_ok (map to_drive_file fs) ?s1 ?s2" by (rule processFilesBatch_ok)
  then have 2: "set (file_ids (prisma st)) \<subseteq> set (file_ids (prisma ?s2))"
    by (simp add: files_ok_def fetched_prisma)
  have "driveFile (prisma ?s3) = driveFile (prisma ?s2)"
    using grants_ok_envD(1) [OF syncAllPermissions_ok [of d ?s2]]
    by (simp add: syncAllPermissions_fold)
  then have "file_ids (prisma (cleanupOrphanedData ?s3)) = file_ids (prisma ?s2)"
    by (simp add: file_ids_def cleanupOrphanedData_fields)
  then show ?thesis using 2 by (simp add: startSync_complete [OF Some])
qed

lemma run_AB: "startSync drive_AB (new_service db_ABC) = (SyncComplete (getSyncStats run_AB), run_AB)"
proof -
  have "fst (fetched drive_AB (new_service db_ABC)) = Some listed_AB"
    by code_simp
  then show ?thesis unfolding run_AB_def by (rule startSync_complete)
qed

text \<open>
  Claim C1. With \<open>A\<close>, \<open>B\<close> and \<open>C\<close> persisted and only \<open>A\<close> and \<open>B\<close> listed, the streaming
  run completes without an error and leaves \<open>C\<close> and the permission on \<open>C\<close> in the tables:
  its cleanup deletes only permissions whose file is missing from the file table, and
  deletes no file. The one-shot endpoint, given the same listing and the same tables,
  deletes \<open>C\<close> and the permission on it.
\<close>

theorem startSync_keeps_unlisted_file:
  "fst (startSync drive_AB (new_service db_ABC)) =
     SyncComplete \<lparr>st_totalFiles = 2, st_processedFiles = 2, st_totalPermissions = 2,
                   st_processedPermissions = 2, st_errors = 0\<rparr>
   \<and> file_ids (prisma (snd (startSync drive_AB (new_service db_ABC)))) = [''A'', ''B'', ''C'']
   \<and> map pr_id (drivePermission (prisma (snd (startSync drive_AB (new_service db_ABC))))) =
       [''gA'', ''gC'']
   \<and> journal (prisma (snd (startSync drive_AB (new_service db_ABC)))) =
       [TxBegin, TxCommit, TxBegin, TxCommit, TxBegin, TxCommit, TxBegin, TxCommit]
   \<and> file_ids (snd (POST (Some listed_AB) (permissions_list drive_AB) db_ABC)) = [''A'', ''B'']
   \<and> map pr_id (drivePermission (snd (POST (Some listed_AB) (permissions_list drive_AB) db_ABC))) =
       [''gA'']"
proof -
  have 1: "getSyncStats run_AB =
      \<lparr>st_totalFiles = 2, st_processedFiles = 2, st_totalPermissions = 2,
       st_processedPermissions = 2, st_errors = 0\<rparr>"
    by code_simp
  have 2: "file_ids (prisma run_AB) = [''A'', ''B'', ''C'']" by code_simp
  have 3: "map pr_id (drivePermission (prisma run_AB)) = [''gA'', ''gC'']" by code_simp
  have 4: "journal (prisma run_AB) =
      [TxBegin, TxCommit, TxBegin, TxCommit, TxBegin, TxCommit, TxBegin, TxCommit]"
    by code_simp
  have 5: "file_ids (snd (POST (Some listed_AB) (permissions_list drive_AB) db_ABC)) = [''A'', ''B'']"
    by code_simp
  have 6: "map pr_id (drivePermission (snd (POST (Some listed_AB) (permissions_list drive_AB) db_ABC))) =
       [''gA'']"
    by code_simp
  show ?thesis using 1 2 3 4 5 6 by (simp add: run_AB)
qed

end
